theory Spec2Isabelle
  imports Main
begin

section \<open>The crawl engine of carcruisefinder: data model\<close>

text \<open>
  The development embeds three walkers of the repository:
  \<^item> \<open>ComprehensiveCarEventScraper\<close> of \<open>scraper.js\<close> (the variant with
    \<open>stateProgress\<close> and \<open>completedStates\<close>): \<open>saveProgress\<close>,
    \<open>loadProgress\<close>, \<open>scrapeEventDetails\<close>, \<open>scrapeStateWorker\<close> and
    \<open>scrapeAllEvents\<close>;
  \<^item> \<open>CombinedScraper\<close> of \<open>combinedScraper.js\<close>: \<open>scrapeWithAxios\<close>,
    \<open>scrapeWithPuppeteer\<close> and \<open>scrapeRegionEvents\<close>;
  \<^item> \<open>EventScraper\<close> (the older region walker): \<open>scrapeRegionEvents\<close>.

  The network, the CSV writer, the disk and the caller of \<open>stop()\<close> are the
  environment. HTML parsing (cheerio) is outside the engine: a response already carries
  what the selectors of the source extract from it.

  JavaScript runs one piece of code at a time, from one \<open>await\<close> to the next. Where
  the code awaits one operation at a time, the model is a function from scraper to
  scraper. Where it starts several calls before it awaits any of them (the chunks of
  \<open>scrapeStateWorker\<close>), the calls are cut at their \<open>await\<close>s and interleaved in
  the order in which the environment completes their operations.
\<close>

subsection \<open>Responses and records\<close>

text \<open>The ten fields \<open>scrapeEventDetails\<close> reads from a detail page.\<close>

record event_fields =
  eventName :: string
  venue :: string
  streetAddress :: string
  city :: string
  stateAbbr :: string
  country :: string
  date :: string
  startTime :: string
  endTime :: string
  description :: string

text \<open>The CSV row: the ten fields, the state name and the link the row came from.\<close>

record csv_record = event_fields +
  state :: string
  originalLink :: string

text \<open>
  What a page yields to the selectors: the \<open>href\<close>s of the listing selector, in
  document order, and the fields of the detail selectors.
\<close>

datatype body = Body (links: "string list") (detail: event_fields)

text \<open>
  \<open>axios.get\<close> resolves with a body or rejects; a rejection carries
  \<open>error.response.status\<close> when the server answered (404, 500, ...) and nothing
  when it did not (timeout, connection reset).
\<close>

datatype response = HttpOk body | HttpError "nat option"

subsection \<open>Progress events and the trace\<close>

datatype cause = FetchFailed "nat option" | WriteFailed

text \<open>One constructor for each \<open>onProgress\<close> call of the source.\<close>

datatype progress =
    StateAborted string
  | StateSkipped string
  | StateResumed string nat
  | PageProgress string nat nat
  | PageRetry string nat nat
  | EventsAborted string
  | OverallProgress nat nat
  | PageError string nat nat "nat option"
  | StateCompleted string nat nat
  | EventScraped string string
  | EventError string nat cause
  | ScraperSummary nat nat
  | Stopped nat
  | SkippingCompleted string nat
  | StateStarting string nat
  | StateFinished string nat nat
  | ScrapingComplete nat

text \<open>
  The observable effects, in the order the code performs them. \<open>ListingGet sid p url\<close>
  is the \<open>axios.get(pageUrl)\<close> of \<open>scrapeStateWorker\<close> for page \<open>p\<close> of the
  state with identifier \<open>sid\<close>; \<open>DetailGet\<close> is the one of
  \<open>scrapeEventDetails\<close>; \<open>Sleep ms\<close> is an awaited \<open>setTimeout\<close>;
  \<open>CsvWrite\<close> is the call of \<open>csvWriter.writeRecords\<close>; \<open>SaveProgress\<close> is a
  call of \<open>saveProgress\<close>.
\<close>

datatype event =
    ListingGet string nat string
  | DetailGet string
  | Sleep nat
  | CsvWrite csv_record
  | SaveProgress
  | Progress progress

subsection \<open>The scraper object, the disk and the environment\<close>

record state_progress =
  lastPage :: nat
  totalPages :: nat
  eventsFound :: nat

text \<open>
  \<open>progressData\<close> of \<open>saveProgress\<close>, without its timestamp. The two JavaScript
  \<open>Set\<close>s are written as arrays, in insertion order.
\<close>

record progress_data =
  pdTrackedEventLinks :: "string list"
  pdCurrentState :: nat
  pdTotalStates :: nat
  pdProcessedEvents :: nat
  pdTotalEventsFound :: nat
  pdStateProgress :: "string \<rightharpoonup> state_progress"
  pdCompletedStates :: "string list"

text \<open>
  The file at \<open>progressPath\<close>. \<open>Whole d\<close> is the complete JSON text of \<open>d\<close>;
  \<open>Torn d\<close> is a proper prefix of it (possibly empty), which is what
  \<open>fs.writeFile\<close> leaves when the process dies after the file was opened for
  writing and before the last byte was written. A proper prefix of the JSON text of an
  object is not JSON: its closing brace is missing.
\<close>

datatype checkpoint_file = Whole progress_data | Torn progress_data

text \<open>
  The fields of the scraper object, followed by the world around it:
  \<open>globalRunning\<close> is \<open>global.isScraperRunning !== false\<close>, \<open>csv\<close> the rows of
  the CSV file, \<open>progressFile\<close> the file at \<open>progressPath\<close>, \<open>awaits\<close> the
  number of awaited operations so far and \<open>trace\<close> the effects so far.
\<close>

record world =
  trackedEventLinks :: "string list"
  completedStates :: "string list"
  stateProgress :: "string \<rightharpoonup> state_progress"
  currentState :: nat
  totalStates :: nat
  processedEvents :: nat
  totalEventsFound :: nat
  isRunning :: bool
  globalRunning :: bool
  csv :: "csv_record list"
  progressFile :: "checkpoint_file option"
  awaits :: nat
  trace :: "event list"

text \<open>
  What the caller may do while the scraper is suspended in an \<open>await\<close>:
  \<open>scraper.stop()\<close>, or the \<open>stop-scraping\<close> handler of \<open>index.js\<close>, which only
  clears \<open>global.isScraperRunning\<close>.
\<close>

datatype ext_action = CallStop | ClearGlobal

text \<open>
  The environment of one run. \<open>http url k\<close> is the outcome of the request for \<open>url\<close>
  made when the enclosing retry loop has failed \<open>k\<close> times; \<open>csvOk link\<close> tells
  whether \<open>writeRecords\<close> resolves for the row of \<open>link\<close>; \<open>diskOk n\<close> whether the
  \<open>fs.writeFile\<close> awaited as operation number \<open>n\<close> resolves; \<open>stopRequests n\<close> what
  the caller does during the await number \<open>n\<close>. \<open>getStateFromUrl\<close> stands for the
  helper of that name (three regular expressions over the URL), of which only the result
  matters here.

  While the members of a chunk are in flight, several operations are pending at once and
  the network decides which of them completes next: \<open>arrival n\<close> picks, for the
  completion that is operation number \<open>n\<close>, one of the members still pending (an
  index into them in chunk order, taken modulo their number). Every order of completion
  is the run of some \<open>arrival\<close>.
\<close>

record env =
  baseUrl :: string
  maxConcurrency :: nat
  http :: "string \<Rightarrow> nat \<Rightarrow> response"
  csvOk :: "string \<Rightarrow> bool"
  diskOk :: "nat \<Rightarrow> bool"
  stopRequests :: "nat \<Rightarrow> ext_action option"
  getStateFromUrl :: "string \<Rightarrow> string"
  arrival :: "nat \<Rightarrow> nat"

section \<open>ComprehensiveCarEventScraper (scraper.js)\<close>

subsection \<open>Primitives\<close>

definition emit :: "event \<Rightarrow> world \<Rightarrow> world" where
  "emit e w = w\<lparr>trace := trace w @ [e]\<rparr>"

text \<open>
  An awaited operation completes and the code that awaited it runs on: the operation
  counter advances, and the caller's action scheduled for this suspension, if any, has
  taken effect. \<open>stop()\<close> also reports through \<open>onProgress\<close>; that message
  belongs to the caller and is not part of the trace.
\<close>

definition await :: "env \<Rightarrow> world \<Rightarrow> world" where
  "await env w =
     (let w1 = w\<lparr>awaits := Suc (awaits w)\<rparr>
      in case stopRequests env (awaits w) of
           None \<Rightarrow> w1
         | Some CallStop \<Rightarrow> w1\<lparr>isRunning := False\<rparr>
         | Some ClearGlobal \<Rightarrow> w1\<lparr>globalRunning := False\<rparr>)"

definition sleep :: "env \<Rightarrow> nat \<Rightarrow> world \<Rightarrow> world" where
  "sleep env ms w = await env (emit (Sleep ms) w)"

text \<open>\<open>Set.prototype.add\<close> on a set kept in insertion order.\<close>

definition set_add :: "string \<Rightarrow> string list \<Rightarrow> string list" where
  "set_add x xs = (if x \<in> set xs then xs else xs @ [x])"

subsection \<open>saveProgress and loadProgress\<close>

definition snapshot :: "world \<Rightarrow> progress_data" where
  "snapshot w =
     \<lparr>pdTrackedEventLinks = trackedEventLinks w,
      pdCurrentState = currentState w,
      pdTotalStates = totalStates w,
      pdProcessedEvents = processedEvents w,
      pdTotalEventsFound = totalEventsFound w,
      pdStateProgress = stateProgress w,
      pdCompletedStates = completedStates w\<rparr>"

text \<open>
  \<open>saveProgress\<close>: the data is built first, then one \<open>fs.writeFile\<close> onto
  \<open>progressPath\<close> itself is awaited; a rejection is caught and logged to the console.
\<close>

definition saveProgress :: "env \<Rightarrow> world \<Rightarrow> world" where
  "saveProgress env w =
     (let progressData = snapshot w;
          w1 = await env (emit SaveProgress w)
      in if diskOk env (awaits w) then w1\<lparr>progressFile := Some (Whole progressData)\<rparr>
         else w1)"

text \<open>
  The disk when the process dies inside the \<open>fs.writeFile\<close> of \<open>saveProgress\<close>:
  the source writes onto \<open>progressPath\<close> in place, so the file that held the previous
  checkpoint now holds a prefix of the new text.
\<close>

definition saveProgress_interrupted :: "world \<Rightarrow> world" where
  "saveProgress_interrupted w =
     (emit SaveProgress w)\<lparr>progressFile := Some (Torn (snapshot w))\<rparr>"

text \<open>
  \<open>loadProgress\<close>: \<open>fs.access\<close> and \<open>fs.readFile\<close> are awaited; a missing file
  gives \<open>false\<close>; \<open>JSON.parse\<close> throws on a torn file, which the \<open>catch\<close> turns
  into \<open>false\<close>; otherwise the fields are restored. The file is one written by this
  \<open>saveProgress\<close>, so every key is present.
\<close>

definition loadProgress :: "env \<Rightarrow> world \<Rightarrow> bool \<times> world" where
  "loadProgress env w =
     (let w1 = await env w
      in case progressFile w1 of
           None \<Rightarrow> (False, w1)
         | Some f \<Rightarrow>
             (let w2 = await env w1
              in case f of
                   Torn d \<Rightarrow> (False, w2)
                 | Whole d \<Rightarrow>
                     (True, w2\<lparr>currentState := pdCurrentState d,
                              totalStates := pdTotalStates d,
                              processedEvents := pdProcessedEvents d,
                              totalEventsFound := pdTotalEventsFound d,
                              trackedEventLinks := pdTrackedEventLinks d,
                              stateProgress := pdStateProgress d,
                              completedStates := pdCompletedStates d\<rparr>)))"

subsection \<open>scrapeEventDetails\<close>

definition maxRetries :: nat where
  "maxRetries = 3"

definition makeRecord :: "event_fields \<Rightarrow> string \<Rightarrow> string \<Rightarrow> csv_record" where
  "makeRecord f stateName eventLink =
     event_fields.extend f (csv_record.fields stateName eventLink)"

text \<open>
  The retry loop of \<open>scrapeEventDetails\<close>, from \<open>retries\<close> failures onwards, for
  a call that is awaited on its own (nothing else runs between its \<open>await\<close>s). The
  result \<open>None\<close> is the \<open>null\<close> of the source. Both the rejection of \<open>axios.get\<close>
  and the rejection of \<open>writeRecords\<close> land in the same \<open>catch\<close>.
\<close>

function scrapeEventDetails_loop ::
  "env \<Rightarrow> string \<Rightarrow> string \<Rightarrow> nat \<Rightarrow> world \<Rightarrow> csv_record option \<times> world" where
  "scrapeEventDetails_loop env eventLink stateName retries w =
     (if retries < maxRetries then
        (if eventLink \<in> set (trackedEventLinks w) then (None, w)
         else
           (let w1 = (if 0 < retries then sleep env (2 ^ retries * 1000) w else w);
                w2 = await env (emit (DetailGet eventLink) w1)
            in case http env eventLink retries of
                 HttpError status \<Rightarrow>
                   (let w3 = emit (Progress (EventError eventLink (Suc retries) (FetchFailed status))) w2
                    in if maxRetries \<le> Suc retries then (None, w3)
                       else scrapeEventDetails_loop env eventLink stateName (Suc retries) w3)
               | HttpOk b \<Rightarrow>
                   (let r = makeRecord (detail b) stateName eventLink;
                        w3 = w2\<lparr>trackedEventLinks := set_add eventLink (trackedEventLinks w2)\<rparr>;
                        w4 = await env (emit (CsvWrite r) w3)
                    in if csvOk env eventLink then
                         (Some r, emit (Progress (EventScraped (eventName r) stateName))
                                    (w4\<lparr>csv := csv w4 @ [r]\<rparr>))
                       else
                         (let w5 = emit (Progress (EventError eventLink (Suc retries) WriteFailed)) w4
                          in if maxRetries \<le> Suc retries then (None, w5)
                             else scrapeEventDetails_loop env eventLink stateName (Suc retries) w5))))
      else (None, w))"
  by pat_completeness auto
termination
  by (relation "measure (\<lambda>(env, eventLink, stateName, retries, w). maxRetries - retries)") auto

definition scrapeEventDetails ::
  "env \<Rightarrow> string \<Rightarrow> string \<Rightarrow> world \<Rightarrow> csv_record option \<times> world" where
  "scrapeEventDetails env eventLink stateName w = scrapeEventDetails_loop env eventLink stateName 0 w"

subsection \<open>State identifiers and page URLs\<close>

text \<open>
  \<open>toLowerCase\<close> and the class \<open>\s\<close> on code units below 256. The code units
  with a lower-case form are \<open>A\<close> to \<open>Z\<close> (65 to 90) and the capital letters of
  Latin-1 (192 to 214 and 216 to 222; 215 is the multiplication sign), each 32 below its
  lower-case form. White space is tab, line feed, vertical tab, form feed, carriage
  return, space and no-break space.
\<close>

definition toLowerCase :: "string \<Rightarrow> string" where
  "toLowerCase s =
     map (\<lambda>c. let n = (of_char c :: nat)
              in if (65 \<le> n \<and> n \<le> 90) \<or> (192 \<le> n \<and> n \<le> 214) \<or> (216 \<le> n \<and> n \<le> 222)
                 then char_of (n + 32) else c) s"

definition isSpace :: "char \<Rightarrow> bool" where
  "isSpace c = ((of_char c :: nat) \<in> {9, 10, 11, 12, 13, 32, 160})"

text \<open>\<open>replace(/\s+/g, '_')\<close>: every maximal run of white space becomes one underscore.\<close>

function replaceSpaces :: "string \<Rightarrow> string" where
  "replaceSpaces [] = []"
| "replaceSpaces (c # cs) =
     (if isSpace c then CHR ''_'' # replaceSpaces (dropWhile isSpace cs)
      else c # replaceSpaces cs)"
  by pat_completeness auto
termination
  by (relation "measure length") (auto simp: length_dropWhile_le less_Suc_eq_le)

definition stateIdOf :: "string \<Rightarrow> string" where
  "stateIdOf stateName = replaceSpaces (toLowerCase stateName)"

text \<open>\<open>a || b\<close> on strings: the empty string is falsy.\<close>

definition orElse :: "string \<Rightarrow> string \<Rightarrow> string" where
  "orElse a b = (if a = [] then b else a)"

definition fullUrlOf :: "string \<Rightarrow> string \<Rightarrow> string" where
  "fullUrlOf base stateLink = (if take 4 stateLink = ''http'' then stateLink else base @ stateLink)"

text \<open>The decimal text of a number, as template literals print it.\<close>

function showNat :: "nat \<Rightarrow> string" where
  "showNat n = (if n < 10 then [char_of (48 + n)] else showNat (n div 10) @ [char_of (48 + n mod 10)])"
  by pat_completeness auto
termination
  by (relation "measure id") auto

definition pageUrlOf :: "string \<Rightarrow> nat \<Rightarrow> string" where
  "pageUrlOf fullUrl currentPage =
     (if 1 < currentPage then fullUrl @ ''/page/'' @ showNat currentPage @ ''/'' else fullUrl)"

subsection \<open>scrapeStateWorker\<close>

text \<open>\<open>options.maxConcurrency || 5\<close> of the constructor.\<close>

definition theMaxConcurrency :: "env \<Rightarrow> nat" where
  "theMaxConcurrency env = (if maxConcurrency env = 0 then 5 else maxConcurrency env)"

text \<open>The slices \<open>eventLinks.slice(i, i + maxConcurrency)\<close> for \<open>i = 0, n, 2n, ...\<close>.\<close>

function chunksOf :: "nat \<Rightarrow> 'a list \<Rightarrow> 'a list list" where
  "chunksOf n xs = (if xs = [] \<or> n = 0 then [] else take n xs # chunksOf n (drop n xs))"
  by pat_completeness auto
termination
  by (relation "measure (\<lambda>(n, xs). length xs)") auto

text \<open>
  One chunk is \<open>chunk.map(async (eventLink) => ...scrapeEventDetails(...))\<close>
  followed by \<open>await Promise.allSettled(...)\<close>. \<open>map\<close> calls the members one
  after the other, and each call runs up to its first \<open>await\<close>: every member checks
  the dedup set and issues its first request before any response is handled. From then on
  a member runs only when the operation it awaits completes, from that \<open>await\<close> to its
  next one, and the members take turns in the order in which their operations complete.

  A member is therefore \<open>scrapeEventDetails\<close> cut at its three \<open>await\<close>s. It is
  suspended on the \<open>setTimeout\<close> before attempt \<open>retries\<close>, on the
  \<open>axios.get\<close> of attempt \<open>retries\<close>, or on \<open>writeRecords\<close> for the record of
  that attempt, or it has settled with its result (\<open>None\<close> for \<open>null\<close>).
\<close>

datatype member =
    AwaitingTimer string nat
  | AwaitingResponse string nat
  | AwaitingWrite string nat csv_record
  | Settled "csv_record option"

text \<open>
  The head of the \<open>while (retries < maxRetries)\<close> loop, up to the first
  \<open>await\<close> it reaches: the dedup check, then the \<open>setTimeout\<close> of the backoff when
  \<open>retries > 0\<close> and the \<open>axios.get\<close> otherwise.
\<close>

definition loopHead :: "string \<Rightarrow> nat \<Rightarrow> world \<Rightarrow> member \<times> world" where
  "loopHead eventLink retries w =
     (if retries < maxRetries then
        (if eventLink \<in> set (trackedEventLinks w) then (Settled None, w)
         else if 0 < retries
           then (AwaitingTimer eventLink retries, emit (Sleep (2 ^ retries * 1000)) w)
           else (AwaitingResponse eventLink retries, emit (DetailGet eventLink) w))
      else (Settled None, w))"

text \<open>
  The \<open>catch\<close> block: the failure is counted and reported, and the member gives up
  or goes round the loop again.
\<close>

definition caught :: "string \<Rightarrow> nat \<Rightarrow> cause \<Rightarrow> world \<Rightarrow> member \<times> world" where
  "caught eventLink retries c w =
     (let w1 = emit (Progress (EventError eventLink (Suc retries) c)) w
      in if maxRetries \<le> Suc retries then (Settled None, w1)
         else loopHead eventLink (Suc retries) w1)"

text \<open>
  The operation a member awaits completes, and the member runs to its next \<open>await\<close>
  or to its \<open>return\<close>: after the timer the request is issued; after the response the
  record is built, the link is tracked and the write is issued, or the rejection is
  caught; after the write the row is in the file and the record is returned, or the
  rejection is caught.
\<close>

fun resumeMember :: "env \<Rightarrow> string \<Rightarrow> member \<Rightarrow> world \<Rightarrow> member \<times> world" where
  "resumeMember env stateName (AwaitingTimer eventLink retries) w =
     (AwaitingResponse eventLink retries, emit (DetailGet eventLink) (await env w))"
| "resumeMember env stateName (AwaitingResponse eventLink retries) w =
     (let w2 = await env w
      in case http env eventLink retries of
           HttpError status \<Rightarrow> caught eventLink retries (FetchFailed status) w2
         | HttpOk b \<Rightarrow>
             (let r = makeRecord (detail b) stateName eventLink;
                  w3 = w2\<lparr>trackedEventLinks := set_add eventLink (trackedEventLinks w2)\<rparr>
              in (AwaitingWrite eventLink retries r, emit (CsvWrite r) w3)))"
| "resumeMember env stateName (AwaitingWrite eventLink retries r) w =
     (let w4 = await env w
      in if csvOk env eventLink then
           (Settled (Some r), emit (Progress (EventScraped (eventName r) stateName))
                                (w4\<lparr>csv := csv w4 @ [r]\<rparr>))
         else caught eventLink retries WriteFailed w4)"
| "resumeMember env stateName (Settled r) w = (Settled r, w)"

fun settled :: "member \<Rightarrow> bool" where
  "settled (Settled r) = True"
| "settled m = False"

text \<open>
  An upper bound on the completions a member still waits for: three for each attempt
  that can still be made (timer, response, write).
\<close>

fun stepsLeft :: "member \<Rightarrow> nat" where
  "stepsLeft (AwaitingTimer eventLink retries) = 3 + 3 * (maxRetries - Suc retries)"
| "stepsLeft (AwaitingResponse eventLink retries) = 2 + 3 * (maxRetries - Suc retries)"
| "stepsLeft (AwaitingWrite eventLink retries r) = 1 + 3 * (maxRetries - Suc retries)"
| "stepsLeft (Settled r) = 0"

text \<open>The synchronous part of \<open>chunk.map\<close>: each member in turn, up to its first \<open>await\<close>.\<close>

fun startMembers :: "string list \<Rightarrow> world \<Rightarrow> member list \<times> world" where
  "startMembers [] w = ([], w)"
| "startMembers (eventLink # chunk) w =
     (case loopHead eventLink 0 w of
        (m, w1) \<Rightarrow> (case startMembers chunk w1 of (ms, w2) \<Rightarrow> (m # ms, w2)))"

text \<open>The positions of the members that have not settled, in chunk order.\<close>

definition pendingOf :: "member list \<Rightarrow> nat list" where
  "pendingOf ms = filter (\<lambda>i. \<not> settled (ms ! i)) [0..<length ms]"

text \<open>
  \<open>await Promise.allSettled(...)\<close>: for as long as a member is pending, the
  environment completes the operation of one of them and that member runs on. The
  scraper itself is resumed when the last member has settled.
\<close>

function runMembers :: "env \<Rightarrow> string \<Rightarrow> member list \<Rightarrow> world \<Rightarrow> member list \<times> world" where
  "runMembers env stateName ms w =
     (if pendingOf ms = [] then (ms, w)
      else
        (let i = pendingOf ms ! (arrival env (awaits w) mod length (pendingOf ms))
         in case resumeMember env stateName (ms ! i) w of
              (m, w1) \<Rightarrow> runMembers env stateName (ms[i := m]) w1))"
  by pat_completeness auto
termination
proof (relation "measure (\<lambda>(env, stateName, ms, w). sum_list (map stepsLeft ms))", goal_cases)
  case 1
  show ?case by simp
next
  case (2 env stateName ms w i m w1)
  then have "i \<in> set (pendingOf ms)"
    by (simp add: nth_mem)
  then have lt: "i < length ms" and ns: "\<not> settled (ms ! i)"
    by (simp_all add: pendingOf_def)
  have m: "m = fst (resumeMember env stateName (ms ! i) w)"
    using 2 by (metis fst_conv)
  have less: "stepsLeft m < stepsLeft (ms ! i)"
    using ns unfolding m
    by (cases "ms ! i")
       (auto simp: Let_def caught_def loopHead_def split: response.splits)
  have "stepsLeft (ms ! i) \<in> set (map stepsLeft ms)"
    using lt by (metis length_map nth_map nth_mem)
  then have "stepsLeft (ms ! i) \<le> sum_list (map stepsLeft ms)"
    by (rule member_le_sum_list) simp
  then have "sum_list (map stepsLeft (ms[i := m])) < sum_list (map stepsLeft ms)"
    using lt less by (simp add: map_update sum_list_update)
  then show ?case by simp
qed

text \<open>
  One chunk, with the count \<open>successfulScrapes\<close> of the members that were fulfilled
  with a record.
\<close>

definition scrapeChunk :: "env \<Rightarrow> string \<Rightarrow> string list \<Rightarrow> world \<Rightarrow> nat \<times> world" where
  "scrapeChunk env stateName chunk w =
     (case startMembers chunk w of
        (ms, w1) \<Rightarrow>
          (case runMembers env stateName ms w1 of
             (results, w2) \<Rightarrow> (length (filter (\<lambda>m. m \<noteq> Settled None) results), w2)))"

text \<open>
  The \<open>for (const chunk of chunks)\<close> loop. \<open>False\<close> is the \<open>return\<close> out of
  \<open>scrapeStateWorker\<close> on a stop request, \<open>True\<close> the normal end of the loop.
\<close>

fun scrapeChunks :: "env \<Rightarrow> string \<Rightarrow> string list list \<Rightarrow> world \<Rightarrow> bool \<times> world" where
  "scrapeChunks env stateDisplayName [] w = (True, w)"
| "scrapeChunks env stateDisplayName (chunk # chunks) w =
     (if \<not> isRunning w then (False, emit (Progress (EventsAborted stateDisplayName)) w)
      else
        (case scrapeChunk env stateDisplayName chunk w of
           (successfulScrapes, w1) \<Rightarrow>
             (let w2 = w1\<lparr>processedEvents := processedEvents w1 + successfulScrapes\<rparr>;
                  w3 = emit (Progress (OverallProgress (processedEvents w2) (totalEventsFound w2))) w2;
                  w4 = saveProgress env w3
              in scrapeChunks env stateDisplayName chunks w4)))"

text \<open>How one run of the inner \<open>while (retries < maxRetries && !success)\<close> loop ends.\<close>

datatype page_result = PageScraped | PaginationEnded | RetriesExhausted | WorkerReturned

text \<open>
  The bookkeeping after the chunks of a page: \<open>totalEventsFound\<close> grows by the
  number of new links, and \<open>stateProgress[stateId]\<close> records the page as the last
  one processed (\<open>lastProcessed\<close>, a timestamp, is left out).
\<close>

definition pageDone :: "string \<Rightarrow> nat \<Rightarrow> nat \<Rightarrow> world \<Rightarrow> world" where
  "pageDone stateId currentPage n w =
     w\<lparr>totalEventsFound := totalEventsFound w + n,
       stateProgress := (stateProgress w)(stateId \<mapsto>
         \<lparr>lastPage = currentPage, totalPages = currentPage,
          eventsFound = (case stateProgress w stateId of None \<Rightarrow> 0 | Some sp \<Rightarrow> eventsFound sp) + n\<rparr>)\<rparr>"

text \<open>
  The inner loop for page \<open>currentPage\<close>, from \<open>retries\<close> failures onwards;
  \<open>scraped\<close> is \<open>scrapedEventLinks\<close>. \<open>PageScraped\<close>: \<open>success = true\<close>.
  \<open>PaginationEnded\<close>: \<open>hasMorePages = false; break\<close>. \<open>RetriesExhausted\<close>: the
  \<open>break\<close> at \<open>retries >= maxRetries\<close>. \<open>WorkerReturned\<close>: the \<open>return\<close> on a
  stop request before a chunk.
\<close>

function scrapePage ::
  "env \<Rightarrow> string \<Rightarrow> string \<Rightarrow> string \<Rightarrow> nat \<Rightarrow> string list \<Rightarrow> nat \<Rightarrow> world
     \<Rightarrow> page_result \<times> string list \<times> world" where
  "scrapePage env fullUrl stateId stateDisplayName currentPage scraped retries w =
     (if retries < maxRetries then
        (let pageUrl = pageUrlOf fullUrl currentPage;
             w1 = emit (Progress (PageProgress stateDisplayName currentPage (length scraped))) w;
             w2 = (if 0 < retries
                   then emit (Progress (PageRetry stateDisplayName currentPage retries))
                          (sleep env (2 ^ retries * 1000) w1)
                   else w1);
             w3 = await env (emit (ListingGet stateId currentPage pageUrl) w2)
         in case http env pageUrl retries of
              HttpOk b \<Rightarrow>
                (let eventLinks = filter (\<lambda>link. link \<notin> set (trackedEventLinks w3)) (links b)
                 in if eventLinks = [] then (PaginationEnded, scraped, w3)
                    else
                      (case scrapeChunks env stateDisplayName
                              (chunksOf (theMaxConcurrency env) eventLinks) w3 of
                         (False, w4) \<Rightarrow> (WorkerReturned, scraped, w4)
                       | (True, w4) \<Rightarrow>
                           (let w5 = pageDone stateId currentPage (length eventLinks) w4;
                                w6 = saveProgress env w5;
                                w7 = sleep env 1000 w6
                            in (PageScraped, scraped @ eventLinks, w7))))
            | HttpError status \<Rightarrow>
                (let w4 = emit (Progress (PageError stateDisplayName currentPage (Suc retries) status)) w3
                 in if status = Some 404 then (PaginationEnded, scraped, w4)
                    else if maxRetries \<le> Suc retries then (RetriesExhausted, scraped, w4)
                    else scrapePage env fullUrl stateId stateDisplayName currentPage scraped
                           (Suc retries) w4))
      else (RetriesExhausted, scraped, w))"
  by pat_completeness auto
termination
  by (relation "measure (\<lambda>(env, fullUrl, stateId, sdn, currentPage, scraped, retries, w).
                   maxRetries - retries)") auto

text \<open>
  The outer \<open>while (hasMorePages)\<close> loop. It runs for as long as pages keep yielding
  new links, so it takes fuel, one unit for each page: \<open>Inl w\<close> is "still running,
  and \<open>w\<close> is how far it has come", \<open>Inr\<close> is the loop ended. In the result,
  \<open>True\<close> says that the loop was left (the code goes on to mark the state completed)
  and \<open>False\<close> that the function returned from inside the loop; the number is
  \<open>currentPage\<close>.
\<close>

fun scrapePages ::
  "nat \<Rightarrow> env \<Rightarrow> string \<Rightarrow> string \<Rightarrow> string \<Rightarrow> nat \<Rightarrow> string list \<Rightarrow> world
     \<Rightarrow> world + (bool \<times> nat \<times> string list \<times> world)" where
  "scrapePages 0 env fullUrl stateId stateDisplayName currentPage scraped w = Inl w"
| "scrapePages (Suc fuel) env fullUrl stateId stateDisplayName currentPage scraped w =
     (if \<not> isRunning w
      then Inr (False, currentPage, scraped, emit (Progress (StateAborted stateDisplayName)) w)
      else
        (case scrapePage env fullUrl stateId stateDisplayName currentPage scraped 0 w of
           (PageScraped, scraped', w') \<Rightarrow>
             scrapePages fuel env fullUrl stateId stateDisplayName (Suc currentPage) scraped' w'
         | (PaginationEnded, scraped', w') \<Rightarrow> Inr (True, currentPage, scraped', w')
         | (RetriesExhausted, scraped', w') \<Rightarrow> Inr (True, currentPage, scraped', w')
         | (WorkerReturned, scraped', w') \<Rightarrow> Inr (False, currentPage, scraped', w')))"

text \<open>The code after the loop: the state is marked completed and progress is saved.\<close>

definition markCompleted :: "env \<Rightarrow> string \<Rightarrow> string \<Rightarrow> nat \<Rightarrow> string list \<Rightarrow> world \<Rightarrow> world" where
  "markCompleted env stateId stateDisplayName currentPage scraped w =
     saveProgress env
       (emit (Progress (StateCompleted stateDisplayName (currentPage - 1) (length scraped)))
          (w\<lparr>completedStates := set_add stateId (completedStates w)\<rparr>))"

text \<open>
  \<open>currentPage\<close> at the start of \<open>scrapeStateWorker\<close>: the page after
  \<open>stateProgress[stateId].lastPage\<close> when that is recorded and not 0, page 1
  otherwise.
\<close>

definition startPage :: "world \<Rightarrow> string \<Rightarrow> nat" where
  "startPage w stateId =
     (case stateProgress w stateId of
        None \<Rightarrow> 1
      | Some sp \<Rightarrow> if 0 < lastPage sp then lastPage sp + 1 else 1)"

text \<open>
  \<open>scrapeStateWorker\<close>. Its result is \<open>scrapedEventLinks\<close>; \<open>Inl w\<close> is again
  "still in the page loop, at \<open>w\<close>".
\<close>

definition scrapeStateWorker ::
  "nat \<Rightarrow> env \<Rightarrow> string \<Rightarrow> string \<Rightarrow> world \<Rightarrow> world + (string list \<times> world)" where
  "scrapeStateWorker fuel env stateLink stateName w =
     (if \<not> isRunning w then Inr ([], emit (Progress (StateAborted stateName)) w)
      else
        (let stateId = stateIdOf stateName;
             fullUrl = fullUrlOf (baseUrl env) stateLink
         in if stateId \<in> set (completedStates w)
            then Inr ([], emit (Progress (StateSkipped stateName)) w)
            else
              (let currentPage = startPage w stateId;
                   w1 = (if 1 < currentPage
                         then emit (Progress (StateResumed stateName currentPage)) w else w);
                   stateDisplayName = orElse stateName (orElse (getStateFromUrl env stateLink) ''Unknown State'')
               in case scrapePages fuel env fullUrl stateId stateDisplayName currentPage [] w1 of
                    Inl w2 \<Rightarrow> Inl w2
                  | Inr (False, currentPage', scraped, w2) \<Rightarrow> Inr (scraped, w2)
                  | Inr (True, currentPage', scraped, w2) \<Rightarrow>
                      Inr (scraped, markCompleted env stateId stateDisplayName currentPage' scraped w2))))"

subsection \<open>scrapeAllEvents\<close>

text \<open>
  The \<open>for\<close> loop over \<open>stateLinks\<close> (pairs of \<open>link\<close> and \<open>name\<close>), from index
  \<open>i\<close>. Nothing inside the loop body throws in this model (every callee catches its
  own errors), so the \<open>catch\<close> of the body is never entered. Each state is given the
  same fuel for its page loop; \<open>Inl w\<close> is "still in the page loop of some state, at
  \<open>w\<close>", \<open>Inr w\<close> is the loop left at \<open>w\<close>.
\<close>

function scrapeAllEvents_loop ::
  "nat \<Rightarrow> env \<Rightarrow> (string \<times> string) list \<Rightarrow> nat \<Rightarrow> world \<Rightarrow> world + world" where
  "scrapeAllEvents_loop fuel env stateLinks i w =
     (if i < length stateLinks then
        (if \<not> isRunning w \<or> \<not> globalRunning w
         then Inr (saveProgress env (emit (Progress (Stopped i)) w))
         else
           (let w1 = w\<lparr>currentState := i\<rparr>;
                link = fst (stateLinks ! i);
                name = snd (stateLinks ! i);
                stateName = orElse name (orElse (getStateFromUrl env link) (''State '' @ showNat (i + 1)));
                stateId = stateIdOf stateName
            in if stateId \<in> set (completedStates w1)
               then scrapeAllEvents_loop fuel env stateLinks (Suc i)
                      (emit (Progress (SkippingCompleted stateName i)) w1)
               else
                 (case scrapeStateWorker fuel env link stateName
                         (emit (Progress (StateStarting stateName i)) w1) of
                    Inl w2 \<Rightarrow> Inl w2
                  | Inr (scrapedEventLinks, w2) \<Rightarrow>
                      scrapeAllEvents_loop fuel env stateLinks (Suc i)
                        (saveProgress env
                           (emit (Progress (StateFinished stateName (length scrapedEventLinks) i)) w2)))))
      else Inr (emit (Progress (ScrapingComplete (totalEventsFound w))) w))"
  by pat_completeness auto
termination
  by (relation "measure (\<lambda>(fuel, env, stateLinks, i, w). length stateLinks - i)") auto

text \<open>
  \<open>resumeFromState\<close> is an index, or \<open>true\<close> for "the index saved in the
  checkpoint".
\<close>

datatype resume = FromIndex nat | FromSaved

text \<open>
  The code of \<open>scrapeAllEvents\<close> before the loop: \<open>isRunning\<close> is set, the
  checkpoint is loaded when \<open>resumeFromState > 0 || resumeFromState === true\<close>, and
  the summary is reported. The result is the index the loop starts at and the scraper
  at that point.
\<close>

definition scrapeAllEvents_start ::
  "env \<Rightarrow> (string \<times> string) list \<Rightarrow> resume \<Rightarrow> world \<Rightarrow> nat \<times> world" where
  "scrapeAllEvents_start env stateLinks resumeFromState w =
     (let w1 = w\<lparr>isRunning := True\<rparr>;
          w2 = (case resumeFromState of
                  FromIndex n \<Rightarrow> if 0 < n then snd (loadProgress env w1) else w1
                | FromSaved \<Rightarrow> snd (loadProgress env w1));
          r = (case resumeFromState of FromIndex n \<Rightarrow> n | FromSaved \<Rightarrow> currentState w2);
          w3 = w2\<lparr>totalStates := length stateLinks, currentState := r\<rparr>
      in (r, emit (Progress (ScraperSummary (length stateLinks) (card (set (completedStates w3))))) w3))"

text \<open>
  \<open>scrapeAllEvents\<close>: the start, the loop, and the \<open>finally\<close> block, which saves
  progress on every way out of the loop. \<open>Inr w\<close> is the call returned at \<open>w\<close>;
  \<open>Inl w\<close> is the call still running at \<open>w\<close>.
\<close>

definition scrapeAllEvents ::
  "nat \<Rightarrow> env \<Rightarrow> (string \<times> string) list \<Rightarrow> resume \<Rightarrow> world \<Rightarrow> world + world" where
  "scrapeAllEvents fuel env stateLinks resumeFromState w =
     (case scrapeAllEvents_start env stateLinks resumeFromState w of
        (r, w4) \<Rightarrow>
          (case scrapeAllEvents_loop fuel env stateLinks r w4 of
             Inl w5 \<Rightarrow> Inl w5
           | Inr w5 \<Rightarrow> Inr (saveProgress env w5)))"

text \<open>
  The scraper a computation has reached: where it is if it is still running, where it
  ended otherwise.
\<close>

definition reached :: "('a \<Rightarrow> world) \<Rightarrow> world + 'a \<Rightarrow> world" where
  "reached f r = (case r of Inl w \<Rightarrow> w | Inr x \<Rightarrow> f x)"

section \<open>CombinedScraper (combinedScraper.js) and EventScraper\<close>

text \<open>
  \<open>scrapeWithPuppeteer\<close> launches the browser outside its \<open>try\<close>, so a failed
  launch (or a failed \<open>browser.close()\<close> in its \<open>finally\<close>) is thrown to the
  caller; a failure of navigation or evaluation is caught and reported as no links.
\<close>

datatype browser_result = PuppeteerLinks "string list" | PuppeteerFailed | PuppeteerThrew

text \<open>
  The environment of a region walk: \<open>axios url k\<close> is the outcome of attempt \<open>k\<close>
  (from 0) for \<open>url\<close>, \<open>puppeteer url\<close> that of the browser for \<open>url\<close>;
  \<open>cRetries\<close> and \<open>cDelay\<close> are the options \<open>retries\<close> and \<open>delay\<close> of
  the constructor.
\<close>

record cenv =
  cBaseUrl :: string
  cRetries :: nat
  cDelay :: nat
  axios :: "string \<Rightarrow> nat \<Rightarrow> response"
  puppeteer :: "string \<Rightarrow> browser_result"

datatype cevent = AxiosGet string nat | PuppeteerGet string | Wait nat

text \<open>
  How a region walk left its loop: with \<open>hasMorePages = false\<close> set by the pagination
  logic, or through the \<open>break\<close> of the error handler (which logs the error).
\<close>

datatype walk_end = EndOfPages | BrokeOnError

text \<open>\<open>options.retries || 3\<close> and \<open>options.delay || 1000\<close>.\<close>

definition theRetries :: "cenv \<Rightarrow> nat" where
  "theRetries env = (if cRetries env = 0 then 3 else cRetries env)"

definition theDelay :: "cenv \<Rightarrow> nat" where
  "theDelay env = (if cDelay env = 0 then 1000 else cDelay env)"

text \<open>
  \<open>CombinedScraper.scrapeWithAxios\<close>, from attempt \<open>attempt\<close>: every rejection is
  caught, and the last one gives \<open>success: false\<close>. The result comes with the requests
  and waits of the call, in order.
\<close>

function combined_scrapeWithAxios ::
  "cenv \<Rightarrow> string \<Rightarrow> nat \<Rightarrow> (string list \<times> bool) \<times> cevent list" where
  "combined_scrapeWithAxios env url attempt =
     (if attempt < theRetries env then
        (case axios env url attempt of
           HttpOk b \<Rightarrow> ((links b, True), [AxiosGet url attempt])
         | HttpError status \<Rightarrow>
             (if attempt = theRetries env - 1 then (([], False), [AxiosGet url attempt])
              else
                (case combined_scrapeWithAxios env url (Suc attempt) of
                   (result, es) \<Rightarrow>
                     (result, AxiosGet url attempt # Wait (theDelay env * (attempt + 1)) # es))))
      else (([], False), []))"
  by pat_completeness auto
termination
  by (relation "measure (\<lambda>(env, url, attempt). theRetries env - attempt)") auto

text \<open>
  The \<open>while (hasMorePages)\<close> loop of \<open>CombinedScraper.scrapeRegionEvents\<close>, with
  fuel. A page counts as empty when axios failed or found no link and the browser failed
  or found no link either.
\<close>

fun combined_scrapeRegionEvents_loop ::
  "nat \<Rightarrow> cenv \<Rightarrow> string \<Rightarrow> nat \<Rightarrow> nat \<Rightarrow> string list \<Rightarrow> cevent list
     \<Rightarrow> (walk_end \<times> string list \<times> cevent list) option" where
  "combined_scrapeRegionEvents_loop 0 env fullUrl currentPage consecutiveEmptyPages allEventLinks tr = None"
| "combined_scrapeRegionEvents_loop (Suc fuel) env fullUrl currentPage consecutiveEmptyPages allEventLinks tr =
     (let pageUrl = pageUrlOf fullUrl currentPage
      in case combined_scrapeWithAxios env pageUrl 0 of
           ((eventLinks, success), es) \<Rightarrow>
             (if \<not> success \<or> eventLinks = [] then
                (let tr2 = tr @ es @ [PuppeteerGet pageUrl];
                     puppeteerLinks = (case puppeteer env pageUrl of PuppeteerLinks ls \<Rightarrow> ls | _ \<Rightarrow> [])
                 in if puppeteer env pageUrl = PuppeteerThrew then Some (BrokeOnError, allEventLinks, tr2)
                    else if puppeteerLinks = [] then
                      (if 2 \<le> Suc consecutiveEmptyPages then Some (EndOfPages, allEventLinks, tr2)
                       else combined_scrapeRegionEvents_loop fuel env fullUrl (Suc currentPage)
                              (Suc consecutiveEmptyPages) allEventLinks (tr2 @ [Wait (theDelay env)]))
                    else combined_scrapeRegionEvents_loop fuel env fullUrl (Suc currentPage) 0
                           (allEventLinks @ puppeteerLinks) (tr2 @ [Wait (theDelay env)]))
              else combined_scrapeRegionEvents_loop fuel env fullUrl (Suc currentPage) 0
                     (allEventLinks @ eventLinks) (tr @ es @ [Wait (theDelay env)])))"

text \<open>\<open>[...new Set(xs)]\<close>: the elements in order of first occurrence.\<close>

definition uniqueLinks :: "string list \<Rightarrow> string list" where
  "uniqueLinks xs = fold set_add xs []"

definition combined_scrapeRegionEvents ::
  "nat \<Rightarrow> cenv \<Rightarrow> string \<Rightarrow> (walk_end \<times> string list \<times> cevent list) option" where
  "combined_scrapeRegionEvents fuel env regionUrl =
     (case combined_scrapeRegionEvents_loop fuel env (fullUrlOf (cBaseUrl env) regionUrl) 1 0 [] [] of
        None \<Rightarrow> None
      | Some (e, allEventLinks, tr) \<Rightarrow> Some (e, uniqueLinks allEventLinks, tr))"

text \<open>
  \<open>EventScraper.scrapeRegionEvents\<close>: here \<open>scrapeWithAxios\<close> makes one request and
  lets a rejection through to the \<open>catch\<close> of the loop, where status 404 sets
  \<open>hasMorePages = false\<close> and anything else is logged and breaks.
\<close>

fun eventScraper_scrapeRegionEvents_loop ::
  "nat \<Rightarrow> cenv \<Rightarrow> string \<Rightarrow> nat \<Rightarrow> string list \<Rightarrow> cevent list
     \<Rightarrow> (walk_end \<times> string list \<times> cevent list) option" where
  "eventScraper_scrapeRegionEvents_loop 0 env fullUrl currentPage allEventLinks tr = None"
| "eventScraper_scrapeRegionEvents_loop (Suc fuel) env fullUrl currentPage allEventLinks tr =
     (let pageUrl = pageUrlOf fullUrl currentPage;
          tr1 = tr @ [AxiosGet pageUrl 0]
      in case axios env pageUrl 0 of
           HttpError status \<Rightarrow>
             (if status = Some 404 then Some (EndOfPages, allEventLinks, tr1)
              else Some (BrokeOnError, allEventLinks, tr1))
         | HttpOk b \<Rightarrow>
             (if links b = [] then
                (let tr2 = tr1 @ [PuppeteerGet pageUrl]
                 in case puppeteer env pageUrl of
                      PuppeteerThrew \<Rightarrow> Some (BrokeOnError, allEventLinks, tr2)
                    | PuppeteerFailed \<Rightarrow> Some (EndOfPages, allEventLinks, tr2)
                    | PuppeteerLinks ls \<Rightarrow>
                        (if ls = [] then Some (EndOfPages, allEventLinks, tr2)
                         else eventScraper_scrapeRegionEvents_loop fuel env fullUrl (Suc currentPage)
                                (allEventLinks @ ls) tr2))
              else eventScraper_scrapeRegionEvents_loop fuel env fullUrl (Suc currentPage)
                     (allEventLinks @ links b) tr1))"

definition eventScraper_scrapeRegionEvents ::
  "nat \<Rightarrow> cenv \<Rightarrow> string \<Rightarrow> (walk_end \<times> string list \<times> cevent list) option" where
  "eventScraper_scrapeRegionEvents fuel env regionUrl =
     eventScraper_scrapeRegionEvents_loop fuel env (fullUrlOf (cBaseUrl env) regionUrl) 1 [] []"

section \<open>Sample inputs\<close>

definition noFields :: event_fields where
  "noFields = \<lparr>eventName = ''Spring Show'', venue = [], streetAddress = [], city = [],
                stateAbbr = [], country = [], date = [], startTime = [], endTime = [],
                description = []\<rparr>"

text \<open>A freshly constructed scraper, nothing on disk.\<close>

definition freshWorld :: world where
  "freshWorld =
     \<lparr>trackedEventLinks = [], completedStates = [], stateProgress = Map.empty, currentState = 0,
      totalStates = 0, processedEvents = 0, totalEventsFound = 0, isRunning = True,
      globalRunning = True, csv = [], progressFile = None, awaits = 0, trace = []\<rparr>"

text \<open>A site where every request is rejected without a response (a timeout).\<close>

definition deadSite :: env where
  "deadSite =
     \<lparr>baseUrl = ''https://carcruisefinder.com'', maxConcurrency = 3,
      http = (\<lambda>url k. HttpError None), csvOk = (\<lambda>link. True), diskOk = (\<lambda>n. True),
      stopRequests = (\<lambda>n. None), getStateFromUrl = (\<lambda>url. ''Iowa''),
      arrival = (\<lambda>n. 0)\<rparr>"

text \<open>A site where every page is served and lists the one link \<open>/e1\<close>.\<close>

definition liveSite :: env where
  "liveSite = deadSite\<lparr>http := (\<lambda>url k. HttpOk (Body [''/e1''] noFields))\<rparr>"


text \<open>A scraper that has processed \<open>/e1\<close> and saved its progress.\<close>

definition savedWorld :: world where
  "savedWorld =
     saveProgress deadSite (freshWorld\<lparr>trackedEventLinks := [''/e1''], processedEvents := 1\<rparr>)"

text \<open>
  A region with two pages of links (\<open>/b\<close> is listed on both) and nothing after them,
  for axios and for the browser alike.
\<close>

definition twoPageRegion :: cenv where
  "twoPageRegion =
     \<lparr>cBaseUrl = ''https://carcruisefinder.com'', cRetries = 3, cDelay = 1000,
      axios = (\<lambda>url k.
        if url = ''https://carcruisefinder.com/r'' then HttpOk (Body [''/a'', ''/b''] noFields)
        else if url = ''https://carcruisefinder.com/r/page/2/'' then HttpOk (Body [''/b'', ''/c''] noFields)
        else HttpOk (Body [] noFields)),
      puppeteer = (\<lambda>url. PuppeteerLinks [])\<rparr>"

text \<open>A site that answers every request with status 404.\<close>

definition goneSite :: env where
  "goneSite = deadSite\<lparr>http := (\<lambda>url k. HttpError (Some 404))\<rparr>"

definition goneRegion :: cenv where
  "goneRegion = twoPageRegion\<lparr>axios := (\<lambda>url k. HttpError (Some 404))\<rparr>"

text \<open>A scraper that has already processed \<open>/e1\<close>.\<close>

definition trackedWorld :: world where
  "trackedWorld = freshWorld\<lparr>trackedEventLinks := [''/e1'']\<rparr>"

definition twoStates :: "(string \<times> string) list" where
  "twoStates = [(''/iowa'', ''Iowa''), (''/ohio-car-shows'', ''Ohio'')]"

text \<open>
  A site where Iowa has three pages with one event each (\<open>/a1\<close>, \<open>/a2\<close>,
  \<open>/a3\<close>) and Ohio has none.
\<close>

definition threePageSite :: env where
  "threePageSite = deadSite\<lparr>http := (\<lambda>url k.
     if url = ''https://carcruisefinder.com/iowa'' then HttpOk (Body [''/a1''] noFields)
     else if url = ''https://carcruisefinder.com/iowa/page/2/'' then HttpOk (Body [''/a2''] noFields)
     else if url = ''https://carcruisefinder.com/iowa/page/3/'' then HttpOk (Body [''/a3''] noFields)
     else HttpOk (Body [] noFields))\<rparr>"

text \<open>
  The same site while the third page of Iowa is being requested (each of the first two
  pages takes six awaits: the listing request, the detail request, the CSV write, two
  saves and the pause): with a caller that calls \<open>stop()\<close> then, as the signal
  handlers of \<open>console-scraper.js\<close> do, and with one that clears
  \<open>global.isScraperRunning\<close> then, as the \<open>stop-scraping\<close> handler of
  \<open>index.js\<close> does.
\<close>

definition stopInThirdPage :: env where
  "stopInThirdPage = threePageSite\<lparr>stopRequests := (\<lambda>n. if n = 12 then Some CallStop else None)\<rparr>"

definition clearInThirdPage :: env where
  "clearInThirdPage = threePageSite\<lparr>stopRequests := (\<lambda>n. if n = 12 then Some ClearGlobal else None)\<rparr>"

text \<open>
  The scraper that the \<open>start-scraping\<close> handler of \<open>index.js\<close> sets up for
  "Resume Scraping" from the progress data \<open>d\<close> it has read: the constructor gets
  \<open>trackedEventLinks\<close> from the file, the four counters are assigned from it, and
  \<open>stateProgress\<close> and \<open>completedStates\<close> are the constructor's empty defaults.
  The handler then calls \<open>scrapeAllEvents(stateLinks, progressData.currentState)\<close>.
\<close>

definition resumedScraper :: "progress_data \<Rightarrow> world \<Rightarrow> world" where
  "resumedScraper d disk =
     freshWorld\<lparr>trackedEventLinks := pdTrackedEventLinks d, currentState := pdCurrentState d,
                 totalStates := pdTotalStates d, processedEvents := pdProcessedEvents d,
                 totalEventsFound := pdTotalEventsFound d,
                 csv := csv disk, progressFile := progressFile disk\<rparr>"

text \<open>The progress data in a complete progress file.\<close>

definition savedData :: "world \<Rightarrow> progress_data option" where
  "savedData w = (case progressFile w of Some (Whole d) \<Rightarrow> Some d | _ \<Rightarrow> None)"

text \<open>
  A site whose detail page \<open>/e6\<close> fails once before it is served, whose listing
  pages list \<open>/e1\<close> and, twice, \<open>/e6\<close>, and whose network completes the
  operations of the first member of a chunk first, but for the second completion, which
  is the second member's.
\<close>

definition flakySite :: env where
  "flakySite = deadSite\<lparr>http := (\<lambda>url k.
       if url = ''/e6'' \<and> k = 0 then HttpError None
       else HttpOk (Body [''/e1'', ''/e6'', ''/e6''] noFields)),
     arrival := (\<lambda>n. if n = 1 then 1 else 0)\<rparr>"

section \<open>Reading traces\<close>

text \<open>The sleeps of a trace, in order.\<close>

fun sleepsOf :: "event list \<Rightarrow> nat list" where
  "sleepsOf [] = []"
| "sleepsOf (Sleep ms # es) = ms # sleepsOf es"
| "sleepsOf (e # es) = sleepsOf es"

text \<open>
  The delays between attempts in the words of the specification: after failed attempt
  number \<open>attempt\<close> (from 1) the controller sleeps
  \<open>baseDelay * backoffMultiplier ^ (attempt - 1)\<close>, for every attempt but the last.
\<close>

definition spec_retryDelays :: "nat \<Rightarrow> nat \<Rightarrow> nat \<Rightarrow> nat list" where
  "spec_retryDelays baseDelay backoffMultiplier maxAttempts =
     map (\<lambda>attempt. baseDelay * backoffMultiplier ^ (attempt - 1)) [1..<maxAttempts]"

text \<open>The pages of the listing requests of a trace, in order.\<close>

fun listingPages :: "event list \<Rightarrow> nat list" where
  "listingPages [] = []"
| "listingPages (ListingGet sid p url # es) = p # listingPages es"
| "listingPages (e # es) = listingPages es"

text \<open>
  The URLs a region walk asked axios for, in order: its first attempts (every page the
  walk visits is first requested through axios).
\<close>

fun pagesRequested :: "cevent list \<Rightarrow> string list" where
  "pagesRequested [] = []"
| "pagesRequested (AxiosGet url attempt # es) =
     (if attempt = 0 then url # pagesRequested es else pagesRequested es)"
| "pagesRequested (e # es) = pagesRequested es"

text \<open>
  A page is empty for \<open>CombinedScraper.scrapeRegionEvents\<close> when axios fails or finds
  no link and the browser fails or finds no link: the condition under which the loop
  counts one more consecutive empty page.
\<close>

definition combined_pageEmpty :: "cenv \<Rightarrow> string \<Rightarrow> bool" where
  "combined_pageEmpty env pageUrl =
     (case fst (combined_scrapeWithAxios env pageUrl 0) of
        (eventLinks, success) \<Rightarrow>
          (\<not> success \<or> eventLinks = []) \<and>
          (case puppeteer env pageUrl of
             PuppeteerLinks ls \<Rightarrow> ls = []
           | PuppeteerFailed \<Rightarrow> True
           | PuppeteerThrew \<Rightarrow> False))"

text \<open>
  Whether the page before page \<open>q\<close> was counted as empty, for a loop that is at page
  \<open>cur\<close> with \<open>consecutiveEmptyPages = c\<close>.
\<close>

definition prevEmpty :: "cenv \<Rightarrow> string \<Rightarrow> nat \<Rightarrow> nat \<Rightarrow> nat \<Rightarrow> bool" where
  "prevEmpty env fullUrl cur c q =
     (if q = cur then c = 1 else combined_pageEmpty env (pageUrlOf fullUrl (q - 1)))"

text \<open>The listing requests of a trace, in order: state identifier and page.\<close>

fun listingRequests :: "event list \<Rightarrow> (string \<times> nat) list" where
  "listingRequests [] = []"
| "listingRequests (ListingGet sid p url # es) = (sid, p) # listingRequests es"
| "listingRequests (e # es) = listingRequests es"

text \<open>The stop request was observed at a poll point: the three messages that say so.\<close>

fun isAbort :: "event \<Rightarrow> bool" where
  "isAbort (Progress (StateAborted s)) = True"
| "isAbort (Progress (EventsAborted s)) = True"
| "isAbort (Progress (Stopped i)) = True"
| "isAbort e = False"

text \<open>
  The events of an orderly halt: saving progress, and the messages of
  \<open>scrapeAllEvents\<close> that close a state or the run. No request, no sleep, no CSV
  write, no start of a state, page or chunk is among them.
\<close>

fun isHalting :: "event \<Rightarrow> bool" where
  "isHalting SaveProgress = True"
| "isHalting (Progress (Stopped i)) = True"
| "isHalting (Progress (StateFinished s n i)) = True"
| "isHalting (Progress (ScrapingComplete n)) = True"
| "isHalting e = False"

text \<open>After the first observation of the stop request, only an orderly halt follows.\<close>

fun quietAfterStop :: "event list \<Rightarrow> bool" where
  "quietAfterStop [] = True"
| "quietAfterStop (e # es) = (if isAbort e then list_all isHalting es else quietAfterStop es)"

text \<open>
  The indices of the states \<open>scrapeAllEvents\<close> turned to, in order: those it started
  and those it skipped as completed.
\<close>

fun visitedOf :: "event list \<Rightarrow> nat list" where
  "visitedOf [] = []"
| "visitedOf (Progress (StateStarting s i) # es) = i # visitedOf es"
| "visitedOf (Progress (SkippingCompleted s i) # es) = i # visitedOf es"
| "visitedOf (e # es) = visitedOf es"

text \<open>The last page of a state that the scraper has recorded as processed, 0 if none.\<close>

definition lastPageOf :: "(string \<rightharpoonup> state_progress) \<Rightarrow> string \<Rightarrow> nat" where
  "lastPageOf sp stateId = (case sp stateId of None \<Rightarrow> 0 | Some x \<Rightarrow> lastPage x)"

text \<open>The link a pending member of a chunk is working on.\<close>

fun linkOf :: "member \<Rightarrow> string option" where
  "linkOf (AwaitingTimer eventLink retries) = Some eventLink"
| "linkOf (AwaitingResponse eventLink retries) = Some eventLink"
| "linkOf (AwaitingWrite eventLink retries r) = Some eventLink"
| "linkOf (Settled r) = None"

text \<open>The events a computation from \<open>w\<close> to \<open>w'\<close> added to the trace.\<close>

definition delta :: "world \<Rightarrow> world \<Rightarrow> event list" where
  "delta w w' = drop (length (trace w)) (trace w')"

text \<open>
  What every stretch of a run from \<open>w\<close> to \<open>w'\<close> keeps: the trace, the dedup set,
  the completed set and the recorded pages only grow, a cleared \<open>isRunning\<close> stays
  cleared, every detail request is for a link that was not tracked at \<open>w\<close>, and every
  listing request is for a state not completed at \<open>w\<close> and for a page after the last
  one recorded at \<open>w\<close>.
\<close>

definition grows :: "world \<Rightarrow> world \<Rightarrow> bool" where
  "grows w w' \<longleftrightarrow>
     trace w' = trace w @ delta w w' \<and>
     set (trackedEventLinks w) \<subseteq> set (trackedEventLinks w') \<and>
     set (completedStates w) \<subseteq> set (completedStates w') \<and>
     (\<forall>sid. lastPageOf (stateProgress w) sid \<le> lastPageOf (stateProgress w') sid) \<and>
     (isRunning w' \<longrightarrow> isRunning w) \<and>
     (\<forall>l. DetailGet l \<in> set (delta w w') \<longrightarrow> l \<notin> set (trackedEventLinks w)) \<and>
     (\<forall>sid p u. ListingGet sid p u \<in> set (delta w w') \<longrightarrow>
        sid \<notin> set (completedStates w) \<and> lastPageOf (stateProgress w) sid < p)"

text \<open>
  A stretch inside \<open>scrapeStateWorker\<close> that did not observe a stop request: in
  addition no state is completed, started or skipped.
\<close>

definition step :: "world \<Rightarrow> world \<Rightarrow> bool" where
  "step w w' \<longleftrightarrow>
     grows w w' \<and> completedStates w' = completedStates w \<and>
     list_all (\<lambda>e. \<not> isAbort e) (delta w w') \<and> visitedOf (delta w w') = []"

text \<open>
  A stretch inside \<open>scrapeStateWorker\<close> that ended by observing the stop request:
  \<open>isRunning\<close> was false, the abort message was the last thing done.
\<close>

definition aborted :: "world \<Rightarrow> world \<Rightarrow> bool" where
  "aborted w w' \<longleftrightarrow>
     (\<exists>w1 s. step w w1 \<and> \<not> isRunning w1 \<and>
        (w' = emit (Progress (StateAborted s)) w1 \<or> w' = emit (Progress (EventsAborted s)) w1))"

text \<open>
  One call of \<open>scrapeStateWorker\<close>, from \<open>w\<close> to \<open>w'\<close>: it starts or skips no
  state of the list, and if it observed the stop request, \<open>isRunning\<close> is false when
  it returns and nothing but an orderly halt followed the observation.
\<close>

definition leg :: "world \<Rightarrow> world \<Rightarrow> bool" where
  "leg w w' \<longleftrightarrow>
     grows w w' \<and> visitedOf (delta w w') = [] \<and> quietAfterStop (delta w w') \<and>
     (list_all (\<lambda>e. \<not> isAbort e) (delta w w') \<or> \<not> isRunning w')"

section \<open>Properties\<close>

declare scrapeEventDetails_loop.simps [simp del] scrapePage.simps [simp del]
  combined_scrapeWithAxios.simps [simp del] scrapeAllEvents_loop.simps [simp del]
  chunksOf.simps [simp del] showNat.simps [simp del] runMembers.simps [simp del]

subsection \<open>What the primitives change\<close>

lemma emit_fields [simp]:
  "trace (emit e w) = trace w @ [e]"
  "trackedEventLinks (emit e w) = trackedEventLinks w"
  "completedStates (emit e w) = completedStates w"
  "stateProgress (emit e w) = stateProgress w"
  "currentState (emit e w) = currentState w"
  "totalStates (emit e w) = totalStates w"
  "processedEvents (emit e w) = processedEvents w"
  "totalEventsFound (emit e w) = totalEventsFound w"
  "isRunning (emit e w) = isRunning w"
  "globalRunning (emit e w) = globalRunning w"
  "csv (emit e w) = csv w"
  "progressFile (emit e w) = progressFile w"
  "awaits (emit e w) = awaits w"
  by (simp_all add: emit_def)

lemma await_fields [simp]:
  "trace (await env w) = trace w"
  "trackedEventLinks (await env w) = trackedEventLinks w"
  "completedStates (await env w) = completedStates w"
  "stateProgress (await env w) = stateProgress w"
  "currentState (await env w) = currentState w"
  "totalStates (await env w) = totalStates w"
  "processedEvents (await env w) = processedEvents w"
  "totalEventsFound (await env w) = totalEventsFound w"
  "csv (await env w) = csv w"
  "progressFile (await env w) = progressFile w"
  "awaits (await env w) = Suc (awaits w)"
  "isRunning (await env w) = (isRunning w \<and> stopRequests env (awaits w) \<noteq> Some CallStop)"
  "globalRunning (await env w) = (globalRunning w \<and> stopRequests env (awaits w) \<noteq> Some ClearGlobal)"
  by (simp_all add: await_def Let_def split: option.splits ext_action.splits)

lemma sleep_fields [simp]:
  "trace (sleep env ms w) = trace w @ [Sleep ms]"
  "trackedEventLinks (sleep env ms w) = trackedEventLinks w"
  "completedStates (sleep env ms w) = completedStates w"
  "stateProgress (sleep env ms w) = stateProgress w"
  "currentState (sleep env ms w) = currentState w"
  "totalStates (sleep env ms w) = totalStates w"
  "processedEvents (sleep env ms w) = processedEvents w"
  "totalEventsFound (sleep env ms w) = totalEventsFound w"
  "csv (sleep env ms w) = csv w"
  "progressFile (sleep env ms w) = progressFile w"
  "awaits (sleep env ms w) = Suc (awaits w)"
  "isRunning (sleep env ms w) = (isRunning w \<and> stopRequests env (awaits w) \<noteq> Some CallStop)"
  "globalRunning (sleep env ms w) = (globalRunning w \<and> stopRequests env (awaits w) \<noteq> Some ClearGlobal)"
  by (simp_all add: sleep_def)

lemma saveProgress_fields [simp]:
  "trace (saveProgress env w) = trace w @ [SaveProgress]"
  "trackedEventLinks (saveProgress env w) = trackedEventLinks w"
  "completedStates (saveProgress env w) = completedStates w"
  "stateProgress (saveProgress env w) = stateProgress w"
  "currentState (saveProgress env w) = currentState w"
  "totalStates (saveProgress env w) = totalStates w"
  "processedEvents (saveProgress env w) = processedEvents w"
  "totalEventsFound (saveProgress env w) = totalEventsFound w"
  "csv (saveProgress env w) = csv w"
  "awaits (saveProgress env w) = Suc (awaits w)"
  "isRunning (saveProgress env w) = (isRunning w \<and> stopRequests env (awaits w) \<noteq> Some CallStop)"
  "globalRunning (saveProgress env w) = (globalRunning w \<and> stopRequests env (awaits w) \<noteq> Some ClearGlobal)"
  "progressFile (saveProgress env w) =
     (if diskOk env (awaits w) then Some (Whole (snapshot w)) else progressFile w)"
  by (simp_all add: saveProgress_def Let_def)

lemma snapshot_saveProgress [simp]: "snapshot (saveProgress env w) = snapshot w"
  by (simp add: snapshot_def)

lemma set_set_add [simp]: "set (set_add x xs) = insert x (set xs)"
  by (auto simp: set_add_def)

subsection \<open>The order of tracking and writing\<close>




subsection \<open>A listing page that keeps failing\<close>

text \<open>
  Claim C2, evaluated on the code. The first listing page of Iowa is rejected three times
  without a response. \<open>scrapeStateWorker\<close> leaves the page loop and falls through to
  the code after it: the state \<open>iowa\<close> is in \<open>completedStates\<close>, reported as
  completed and saved as such (no page of it was scraped, so it has no entry in
  \<open>stateProgress\<close>). When the site is back, the next call for Iowa skips the state
  and requests nothing.
\<close>

theorem scrapeStateWorker_failed_state_marked_completed:
  "(case scrapeStateWorker 1 deadSite ''/iowa'' ''Iowa'' freshWorld of
      Inl w \<Rightarrow> False
    | Inr (r, w) \<Rightarrow>
        r = [] \<and> completedStates w = [''iowa''] \<and> stateProgress w ''iowa'' = None \<and>
        trace w =
          [Progress (PageProgress ''Iowa'' 1 0),
           ListingGet ''iowa'' 1 ''https://carcruisefinder.com/iowa'',
           Progress (PageError ''Iowa'' 1 1 None),
           Progress (PageProgress ''Iowa'' 1 0), Sleep 2000, Progress (PageRetry ''Iowa'' 1 1),
           ListingGet ''iowa'' 1 ''https://carcruisefinder.com/iowa'',
           Progress (PageError ''Iowa'' 1 2 None),
           Progress (PageProgress ''Iowa'' 1 0), Sleep 4000, Progress (PageRetry ''Iowa'' 1 2),
           ListingGet ''iowa'' 1 ''https://carcruisefinder.com/iowa'',
           Progress (PageError ''Iowa'' 1 3 None),
           Progress (StateCompleted ''Iowa'' 0 0), SaveProgress] \<and>
        map_option (\<lambda>f. case f of Whole d \<Rightarrow> pdCompletedStates d | Torn d \<Rightarrow> [])
          (progressFile w) = Some [''iowa''] \<and>
        (case scrapeStateWorker 1 liveSite ''/iowa'' ''Iowa'' (w\<lparr>trace := []\<rparr>) of
           Inl w' \<Rightarrow> False
         | Inr (r', w') \<Rightarrow> r' = [] \<and> trace w' = [Progress (StateSkipped ''Iowa'')]))"
  by code_simp

subsection \<open>Saving the checkpoint\<close>

text \<open>
  A scraper with a complete checkpoint on disk saves again and dies inside the write.
  The file that held the checkpoint is now torn, it no longer equals the previous
  checkpoint, and \<open>loadProgress\<close> finds nothing to restore.
\<close>

theorem saveProgress_interrupted_tears_checkpoint:
  "progressFile savedWorld = Some (Whole (snapshot savedWorld)) \<and>
   progressFile (saveProgress_interrupted savedWorld) = Some (Torn (snapshot savedWorld)) \<and>
   progressFile (saveProgress_interrupted savedWorld) \<noteq> progressFile savedWorld \<and>
   fst (loadProgress deadSite (saveProgress_interrupted savedWorld)) = False"
  by (simp add: savedWorld_def deadSite_def saveProgress_interrupted_def loadProgress_def Let_def)

text \<open>
  Claim C3, as the code has it. \<open>saveProgress\<close> writes the full progress state with
  one \<open>fs.writeFile\<close> onto the checkpoint file itself: when the write resolves, the
  file holds exactly the state of the scraper (its seven fields, each as the scraper has
  it). There is no temporary file and no rename,
  so a save that is cut short leaves a torn file in the place of the previous
  checkpoint; \<open>loadProgress\<close> answers \<open>false\<close> on it and leaves the state of the
  scraper as it was.
\<close>

theorem saveProgress_in_place:
  "(diskOk env (awaits w) \<longrightarrow> progressFile (saveProgress env w) = Some (Whole (snapshot w))) \<and>
   progressFile (saveProgress_interrupted w) = Some (Torn (snapshot w)) \<and>
   fst (loadProgress env (saveProgress_interrupted w)) = False \<and>
   snapshot (snd (loadProgress env (saveProgress_interrupted w))) = snapshot w \<and>
   pdTrackedEventLinks (snapshot w) = trackedEventLinks w \<and>
   pdCurrentState (snapshot w) = currentState w \<and>
   pdTotalStates (snapshot w) = totalStates w \<and>
   pdProcessedEvents (snapshot w) = processedEvents w \<and>
   pdTotalEventsFound (snapshot w) = totalEventsFound w \<and>
   pdStateProgress (snapshot w) = stateProgress w \<and>
   pdCompletedStates (snapshot w) = completedStates w"
  by (simp add: saveProgress_interrupted_def loadProgress_def Let_def snapshot_def)

theorem saveProgress_in_place_witness:
  "diskOk deadSite (awaits freshWorld) \<and>
   progressFile (saveProgress deadSite freshWorld) = Some (Whole (snapshot freshWorld)) \<and>
   fst (loadProgress deadSite (saveProgress_interrupted freshWorld)) = False"
  using saveProgress_in_place [of deadSite freshWorld]
  by (simp add: deadSite_def)

subsection \<open>The retry bound\<close>

text \<open>
  A detail page that always times out: the sleeps between the three attempts are 2 s and
  4 s, not the 1 s and 2 s of \<open>baseDelay * backoffMultiplier ^ (attempt - 1)\<close>.
\<close>

theorem scrapeEventDetails_delays_differ:
  "sleepsOf (trace (snd (scrapeEventDetails deadSite ''/e1'' ''Iowa'' freshWorld))) = [2000, 4000] \<and>
   spec_retryDelays 1000 2 maxRetries = [1000, 2000] \<and>
   sleepsOf (trace (snd (scrapeEventDetails deadSite ''/e1'' ''Iowa'' freshWorld)))
     \<noteq> spec_retryDelays 1000 2 maxRetries"
  by code_simp

text \<open>
  Claim C4, as the code has it. A fetch that fails at every attempt is attempted exactly
  \<open>maxRetries = 3\<close> times, with a sleep of \<open>2 ^ k * 1000\<close> ms before the attempt that
  follows \<open>k\<close> failures (2 s, then 4 s). Each failure is reported through
  \<open>onProgress\<close> with its retry count. After the third failure
  \<open>scrapeEventDetails\<close> returns \<open>null\<close>, and the page loop of
  \<open>scrapeStateWorker\<close> is left with nothing scraped; on a listing page this holds
  for every failure but status 404.
\<close>

theorem retries_exhausted_after_three_attempts:
  assumes "eventLink \<notin> set (trackedEventLinks w)"
    and "\<forall>k<maxRetries. http env eventLink k = HttpError (s k)"
    and "\<forall>k<maxRetries. http env' (pageUrlOf fullUrl currentPage) k = HttpError (t k) \<and> t k \<noteq> Some 404"
  shows "(case scrapeEventDetails env eventLink stateName w of
            (r, w') \<Rightarrow>
              r = None \<and>
              trace w' = trace w @
                [DetailGet eventLink, Progress (EventError eventLink 1 (FetchFailed (s 0))),
                 Sleep 2000,
                 DetailGet eventLink, Progress (EventError eventLink 2 (FetchFailed (s 1))),
                 Sleep 4000,
                 DetailGet eventLink, Progress (EventError eventLink 3 (FetchFailed (s 2)))]) \<and>
         (case scrapePage env' fullUrl stateId stateDisplayName currentPage scraped 0 v of
            (res, scraped', v') \<Rightarrow>
              res = RetriesExhausted \<and> scraped' = scraped \<and>
              trace v' = trace v @
                [Progress (PageProgress stateDisplayName currentPage (length scraped)),
                 ListingGet stateId currentPage (pageUrlOf fullUrl currentPage),
                 Progress (PageError stateDisplayName currentPage 1 (t 0)),
                 Progress (PageProgress stateDisplayName currentPage (length scraped)),
                 Sleep 2000,
                 Progress (PageRetry stateDisplayName currentPage 1),
                 ListingGet stateId currentPage (pageUrlOf fullUrl currentPage),
                 Progress (PageError stateDisplayName currentPage 2 (t 1)),
                 Progress (PageProgress stateDisplayName currentPage (length scraped)),
                 Sleep 4000,
                 Progress (PageRetry stateDisplayName currentPage 2),
                 ListingGet stateId currentPage (pageUrlOf fullUrl currentPage),
                 Progress (PageError stateDisplayName currentPage 3 (t 2))])"
proof -
  have d: "http env eventLink 0 = HttpError (s 0)" "http env eventLink (Suc 0) = HttpError (s 1)"
    "http env eventLink (Suc (Suc 0)) = HttpError (s 2)"
    using assms(2) by (simp_all add: maxRetries_def numeral_2_eq_2)
  have l: "http env' (pageUrlOf fullUrl currentPage) 0 = HttpError (t 0)"
    "http env' (pageUrlOf fullUrl currentPage) (Suc 0) = HttpError (t 1)"
    "http env' (pageUrlOf fullUrl currentPage) (Suc (Suc 0)) = HttpError (t 2)"
    "t 0 \<noteq> Some 404" "t 1 \<noteq> Some 404" "t 2 \<noteq> Some 404"
    using assms(3) by (simp_all add: maxRetries_def numeral_2_eq_2)
  have A: "scrapeEventDetails env eventLink stateName w = (r, w') \<Longrightarrow>
      r = None \<and>
      trace w' = trace w @
        [DetailGet eventLink, Progress (EventError eventLink 1 (FetchFailed (s 0))),
         Sleep 2000,
         DetailGet eventLink, Progress (EventError eventLink 2 (FetchFailed (s 1))),
         Sleep 4000,
         DetailGet eventLink, Progress (EventError eventLink 3 (FetchFailed (s 2)))]" for r w'
    using assms(1) d
    by (simp add: scrapeEventDetails_def Let_def maxRetries_def
          scrapeEventDetails_loop.simps [of env eventLink stateName 0]
          scrapeEventDetails_loop.simps [of env eventLink stateName "Suc 0"]
          scrapeEventDetails_loop.simps [of env eventLink stateName "Suc (Suc 0)"]) auto
  have B: "scrapePage env' fullUrl stateId stateDisplayName currentPage scraped 0 v = (res, scraped', v') \<Longrightarrow>
      res = RetriesExhausted \<and> scraped' = scraped \<and>
      trace v' = trace v @
        [Progress (PageProgress stateDisplayName currentPage (length scraped)),
         ListingGet stateId currentPage (pageUrlOf fullUrl currentPage),
         Progress (PageError stateDisplayName currentPage 1 (t 0)),
         Progress (PageProgress stateDisplayName currentPage (length scraped)),
         Sleep 2000,
         Progress (PageRetry stateDisplayName currentPage 1),
         ListingGet stateId currentPage (pageUrlOf fullUrl currentPage),
         Progress (PageError stateDisplayName currentPage 2 (t 1)),
         Progress (PageProgress stateDisplayName currentPage (length scraped)),
         Sleep 4000,
         Progress (PageRetry stateDisplayName currentPage 2),
         ListingGet stateId currentPage (pageUrlOf fullUrl currentPage),
         Progress (PageError stateDisplayName currentPage 3 (t 2))]" for res scraped' v'
    using l
    by (simp add: Let_def maxRetries_def
          scrapePage.simps [of env' fullUrl stateId stateDisplayName currentPage scraped 0]
          scrapePage.simps [of env' fullUrl stateId stateDisplayName currentPage scraped "Suc 0"]
          scrapePage.simps [of env' fullUrl stateId stateDisplayName currentPage scraped "Suc (Suc 0)"]) auto
  show ?thesis using A B by (simp split: prod.splits)
qed

theorem retries_exhausted_after_three_attempts_witness:
  "''/e1'' \<notin> set (trackedEventLinks freshWorld) \<and>
   http deadSite ''/e1'' 2 = HttpError None \<and>
   http deadSite (pageUrlOf ''https://carcruisefinder.com/iowa'' 1) 2 = HttpError None \<and>
   fst (scrapeEventDetails deadSite ''/e1'' ''Iowa'' freshWorld) = None \<and>
   trace (snd (scrapeEventDetails deadSite ''/e1'' ''Iowa'' freshWorld)) =
     [DetailGet ''/e1'', Progress (EventError ''/e1'' 1 (FetchFailed None)), Sleep 2000,
      DetailGet ''/e1'', Progress (EventError ''/e1'' 2 (FetchFailed None)), Sleep 4000,
      DetailGet ''/e1'', Progress (EventError ''/e1'' 3 (FetchFailed None))] \<and>
   fst (scrapePage deadSite ''https://carcruisefinder.com/iowa'' ''iowa'' ''Iowa'' 1 [] 0 freshWorld)
     = RetriesExhausted"
proof -
  have h1: "''/e1'' \<notin> set (trackedEventLinks freshWorld)"
    by (simp add: freshWorld_def)
  have h2: "\<forall>k<maxRetries. http deadSite ''/e1'' k = HttpError ((\<lambda>k. None) k)"
    by (simp add: deadSite_def)
  have h3: "\<forall>k<maxRetries. http deadSite (pageUrlOf ''https://carcruisefinder.com/iowa'' 1) k
              = HttpError ((\<lambda>k. None) k) \<and> (\<lambda>k. None) k \<noteq> Some 404"
    by (simp add: deadSite_def)
  show ?thesis
    using retries_exhausted_after_three_attempts [OF h1 h2 h3,
        where stateName = "''Iowa''" and stateId = "''iowa''" and stateDisplayName = "''Iowa''"
          and scraped = "[]" and v = freshWorld]
    by (simp add: deadSite_def freshWorld_def split: prod.splits)
qed

subsection \<open>No duplicates in the links of a region\<close>

lemma fold_set_add_distinct: "distinct acc \<Longrightarrow> distinct (fold set_add xs acc)"
  by (induction xs arbitrary: acc) (auto simp: set_add_def)

lemma fold_set_add_set: "set (fold set_add xs acc) = set xs \<union> set acc"
  by (induction xs arbitrary: acc) auto

text \<open>
  Claim C10. Whatever the pages and the browser return, the list that
  \<open>CombinedScraper.scrapeRegionEvents\<close> returns has no duplicates: it is the
  accumulated list of the loop passed through a \<open>Set\<close>, so it has the same elements,
  each once.
\<close>

theorem combined_scrapeRegionEvents_distinct:
  assumes "combined_scrapeRegionEvents fuel env regionUrl = Some (e, uniqueEventLinks, tr)"
  shows "distinct uniqueEventLinks \<and>
         (\<exists>allEventLinks.
            combined_scrapeRegionEvents_loop fuel env (fullUrlOf (cBaseUrl env) regionUrl) 1 0 [] []
              = Some (e, allEventLinks, tr) \<and>
            set uniqueEventLinks = set allEventLinks)"
  using assms
  by (auto simp: combined_scrapeRegionEvents_def uniqueLinks_def fold_set_add_distinct
        fold_set_add_set split: option.splits)

theorem combined_scrapeRegionEvents_distinct_witness:
  "combined_scrapeRegionEvents 4 twoPageRegion ''/r'' =
     Some (EndOfPages, [''/a'', ''/b'', ''/c''],
       [AxiosGet ''https://carcruisefinder.com/r'' 0, Wait 1000,
        AxiosGet ''https://carcruisefinder.com/r/page/2/'' 0, Wait 1000,
        AxiosGet ''https://carcruisefinder.com/r/page/3/'' 0,
        PuppeteerGet ''https://carcruisefinder.com/r/page/3/'', Wait 1000,
        AxiosGet ''https://carcruisefinder.com/r/page/4/'' 0,
        PuppeteerGet ''https://carcruisefinder.com/r/page/4/'']) \<and>
   distinct [''/a'', ''/b'', ''/c'']"
proof -
  have h: "combined_scrapeRegionEvents 4 twoPageRegion ''/r'' =
     Some (EndOfPages, [''/a'', ''/b'', ''/c''],
       [AxiosGet ''https://carcruisefinder.com/r'' 0, Wait 1000,
        AxiosGet ''https://carcruisefinder.com/r/page/2/'' 0, Wait 1000,
        AxiosGet ''https://carcruisefinder.com/r/page/3/'' 0,
        PuppeteerGet ''https://carcruisefinder.com/r/page/3/'', Wait 1000,
        AxiosGet ''https://carcruisefinder.com/r/page/4/'' 0,
        PuppeteerGet ''https://carcruisefinder.com/r/page/4/''])"
    by code_simp
  show ?thesis
    using h combined_scrapeRegionEvents_distinct [OF h] by simp
qed

subsection \<open>Status 404 on a listing page\<close>

lemma listingPages_append [simp]: "listingPages (xs @ ys) = listingPages xs @ listingPages ys"
  by (induction xs rule: listingPages.induct) simp_all

lemma scrapePage_not_found:
  assumes "r < maxRetries"
    and "\<forall>j<r. http env (pageUrlOf fullUrl p) j = HttpError (t j) \<and> t j \<noteq> Some 404"
    and "http env (pageUrlOf fullUrl p) r = HttpError (Some 404)"
    and "scrapePage env fullUrl sid sdn p scraped 0 w = (res, scraped', w')"
  shows "res = PaginationEnded \<and> scraped' = scraped \<and>
         listingPages (trace w') = listingPages (trace w) @ replicate (Suc r) p \<and>
         completedStates w' = completedStates w \<and> stateProgress w' = stateProgress w"
proof -
  have "r = 0 \<or> r = Suc 0 \<or> r = Suc (Suc 0)"
    using assms(1) unfolding maxRetries_def by arith
  then consider "r = 0" | "r = Suc 0" | "r = Suc (Suc 0)"
    by blast
  then show ?thesis
  proof cases
    case 1
    with assms(3,4) show ?thesis
      by (auto simp: Let_def maxRetries_def
            scrapePage.simps [of env fullUrl sid sdn p scraped 0])
  next
    case 2
    with assms(2,3,4) show ?thesis
      by (auto simp: Let_def maxRetries_def
            scrapePage.simps [of env fullUrl sid sdn p scraped 0]
            scrapePage.simps [of env fullUrl sid sdn p scraped "Suc 0"])
  next
    case 3
    with assms(2,3,4) have
      "http env (pageUrlOf fullUrl p) 0 = HttpError (t 0)" "t 0 \<noteq> Some 404"
      "http env (pageUrlOf fullUrl p) (Suc 0) = HttpError (t (Suc 0))" "t (Suc 0) \<noteq> Some 404"
      "http env (pageUrlOf fullUrl p) (Suc (Suc 0)) = HttpError (Some 404)"
      by simp_all
    with assms(4) 3 show ?thesis
      by (auto simp: Let_def maxRetries_def
            scrapePage.simps [of env fullUrl sid sdn p scraped 0]
            scrapePage.simps [of env fullUrl sid sdn p scraped "Suc 0"]
            scrapePage.simps [of env fullUrl sid sdn p scraped "Suc (Suc 0)"])
  qed
qed

text \<open>
  Claim C8. When a listing page of \<open>scrapeStateWorker\<close> is answered with status 404,
  at the first attempt or after earlier failures of another kind, the page loop is left
  with \<open>hasMorePages = false\<close>: the 404 is requested once and not retried, no further
  page of the state is requested, and the code goes on to mark the state completed.
  In \<open>EventScraper.scrapeRegionEvents\<close> a 404 ends the walk as the end of the pages,
  with the links gathered so far and no further request.
\<close>

theorem not_found_ends_pagination:
  assumes "isRunning w" and "r < maxRetries"
    and "\<forall>j<r. http env (pageUrlOf fullUrl p) j = HttpError (t j) \<and> t j \<noteq> Some 404"
    and "http env (pageUrlOf fullUrl p) r = HttpError (Some 404)"
    and "axios cenv (pageUrlOf cfullUrl cp) 0 = HttpError (Some 404)"
  shows "(\<exists>w'. scrapePages (Suc fuel) env fullUrl sid sdn p scraped w = Inr (True, p, scraped, w') \<and>
               listingPages (trace w') = listingPages (trace w) @ replicate (Suc r) p) \<and>
         eventScraper_scrapeRegionEvents_loop (Suc cfuel) cenv cfullUrl cp allEventLinks tr
           = Some (EndOfPages, allEventLinks, tr @ [AxiosGet (pageUrlOf cfullUrl cp) 0])"
proof -
  obtain res scraped' w' where
    sp: "scrapePage env fullUrl sid sdn p scraped 0 w = (res, scraped', w')"
    by (metis prod_cases3)
  from scrapePage_not_found [OF assms(2,3,4) sp] assms(1) sp
  have "scrapePages (Suc fuel) env fullUrl sid sdn p scraped w = Inr (True, p, scraped, w') \<and>
        listingPages (trace w') = listingPages (trace w) @ replicate (Suc r) p"
    by simp
  moreover have "eventScraper_scrapeRegionEvents_loop (Suc cfuel) cenv cfullUrl cp allEventLinks tr
           = Some (EndOfPages, allEventLinks, tr @ [AxiosGet (pageUrlOf cfullUrl cp) 0])"
    using assms(5) by (simp add: Let_def)
  ultimately show ?thesis by blast
qed

theorem not_found_ends_pagination_witness:
  "isRunning freshWorld \<and> http goneSite (pageUrlOf ''https://carcruisefinder.com/iowa'' 3) 0
     = HttpError (Some 404) \<and>
   axios goneRegion (pageUrlOf ''https://carcruisefinder.com/r'' 2) 0 = HttpError (Some 404) \<and>
   (\<exists>w'. scrapePages (Suc 0) goneSite ''https://carcruisefinder.com/iowa'' ''iowa'' ''Iowa'' 3
             [''/e0''] freshWorld = Inr (True, 3, [''/e0''], w') \<and>
          listingPages (trace w') = [3]) \<and>
   eventScraper_scrapeRegionEvents_loop (Suc 0) goneRegion ''https://carcruisefinder.com/r'' 2 [''/a''] []
     = Some (EndOfPages, [''/a''], [AxiosGet ''https://carcruisefinder.com/r/page/2/'' 0])"
proof -
  have h1: "isRunning freshWorld" by (simp add: freshWorld_def)
  have h2: "0 < maxRetries" by (simp add: maxRetries_def)
  have h3: "\<forall>j<0. http goneSite (pageUrlOf ''https://carcruisefinder.com/iowa'' 3) j
              = HttpError ((\<lambda>j. None) j) \<and> (\<lambda>j. None) j \<noteq> Some 404"
    by simp
  have h4: "http goneSite (pageUrlOf ''https://carcruisefinder.com/iowa'' 3) 0 = HttpError (Some 404)"
    by (simp add: goneSite_def)
  have h5: "axios goneRegion (pageUrlOf ''https://carcruisefinder.com/r'' 2) 0 = HttpError (Some 404)"
    by (simp add: goneRegion_def)
  have u: "pageUrlOf ''https://carcruisefinder.com/r'' 2 = ''https://carcruisefinder.com/r/page/2/''"
    by code_simp
  show ?thesis
    using h1 h4 h5 not_found_ends_pagination [OF h1 h2 h3 h4 h5,
        where fuel = 0 and sid = "''iowa''" and sdn = "''Iowa''" and scraped = "[''/e0'']"
          and cfuel = 0 and allEventLinks = "[''/a'']" and tr = "[]"]
    by (simp add: freshWorld_def u)
qed

subsection \<open>When pagination ends\<close>

lemma scrapePage_no_new_links:
  assumes "http env (pageUrlOf fullUrl p) 0 = HttpOk b"
    and "\<forall>link \<in> set (links b). link \<in> set (trackedEventLinks w)"
    and "scrapePage env fullUrl sid sdn p scraped 0 w = (res, scraped', w')"
  shows "res = PaginationEnded \<and> scraped' = scraped \<and>
         listingPages (trace w') = listingPages (trace w) @ [p]"
  using assms
  by (auto simp: Let_def maxRetries_def filter_empty_conv
            scrapePage.simps [of env fullUrl sid sdn p scraped 0])

lemma pagesRequested_append [simp]:
  "pagesRequested (xs @ ys) = pagesRequested xs @ pagesRequested ys"
  by (induction xs rule: pagesRequested.induct) simp_all

lemma theRetries_pos [simp]: "0 < theRetries env"
  by (simp add: theRetries_def)

lemma combined_scrapeWithAxios_requests:
  "pagesRequested (snd (combined_scrapeWithAxios env url k)) =
     (if k = 0 then [url] else [])"
proof (induction env url k rule: combined_scrapeWithAxios.induct)
  case (1 env url attempt)
  show ?case
  proof (cases "attempt < theRetries env")
    case False
    with theRetries_pos [of env] have "attempt \<noteq> 0" by arith
    with False show ?thesis
      by (subst combined_scrapeWithAxios.simps) simp
  next
    case True
    show ?thesis
    proof (cases "axios env url attempt")
      case (HttpOk b)
      with True show ?thesis
        by (subst combined_scrapeWithAxios.simps) simp
    next
      case (HttpError status)
      show ?thesis
      proof (cases "attempt = theRetries env - 1")
        case last: True
        have "combined_scrapeWithAxios env url attempt = (([], False), [AxiosGet url attempt])"
          using True HttpError last by (subst combined_scrapeWithAxios.simps) simp
        then show ?thesis by simp
      next
        case False
        from "1.IH" [OF True HttpError False]
        have "pagesRequested (snd (combined_scrapeWithAxios env url (Suc attempt))) = []"
          by simp
        with True HttpError False show ?thesis
          by (subst combined_scrapeWithAxios.simps) (auto split: prod.splits)
      qed
    qed
  qed
qed

text \<open>One turn of the loop on an empty page.\<close>

lemma combined_loop_empty_page:
  assumes "combined_pageEmpty env (pageUrlOf fullUrl cur)"
  shows "\<exists>tr2. pagesRequested tr2 = pagesRequested tr @ [pageUrlOf fullUrl cur] \<and>
           combined_scrapeRegionEvents_loop (Suc n) env fullUrl cur c acc tr =
             (if 1 \<le> c then Some (EndOfPages, acc, tr2)
              else combined_scrapeRegionEvents_loop n env fullUrl (Suc cur) (Suc c) acc
                     (tr2 @ [Wait (theDelay env)]))"
proof -
  obtain ls ok es where a: "combined_scrapeWithAxios env (pageUrlOf fullUrl cur) 0 = ((ls, ok), es)"
    by (metis surj_pair)
  have r: "pagesRequested es = [pageUrlOf fullUrl cur]"
    using combined_scrapeWithAxios_requests [of env "pageUrlOf fullUrl cur" 0] a by simp
  let ?tr2 = "tr @ es @ [PuppeteerGet (pageUrlOf fullUrl cur)]"
  have "pagesRequested ?tr2 = pagesRequested tr @ [pageUrlOf fullUrl cur]"
    using r by simp
  moreover have "combined_scrapeRegionEvents_loop (Suc n) env fullUrl cur c acc tr =
             (if 1 \<le> c then Some (EndOfPages, acc, ?tr2)
              else combined_scrapeRegionEvents_loop n env fullUrl (Suc cur) (Suc c) acc
                     (?tr2 @ [Wait (theDelay env)]))"
    using assms a
    by (auto simp: combined_pageEmpty_def Let_def split: browser_result.splits)
  ultimately show ?thesis by blast
qed

text \<open>One turn of the loop on a page with links.\<close>

lemma combined_loop_full_page:
  assumes "\<not> combined_pageEmpty env (pageUrlOf fullUrl cur)"
    and "puppeteer env (pageUrlOf fullUrl cur) \<noteq> PuppeteerThrew"
  shows "\<exists>acc' tr'. pagesRequested tr' = pagesRequested tr @ [pageUrlOf fullUrl cur] \<and>
           combined_scrapeRegionEvents_loop (Suc n) env fullUrl cur c acc tr =
             combined_scrapeRegionEvents_loop n env fullUrl (Suc cur) 0 acc' tr'"
proof -
  obtain ls ok es where a: "combined_scrapeWithAxios env (pageUrlOf fullUrl cur) 0 = ((ls, ok), es)"
    by (metis surj_pair)
  have r: "pagesRequested es = [pageUrlOf fullUrl cur]"
    using combined_scrapeWithAxios_requests [of env "pageUrlOf fullUrl cur" 0] a by simp
  show ?thesis
  proof (cases "\<not> ok \<or> ls = []")
    case True
    with assms a obtain pl where p: "puppeteer env (pageUrlOf fullUrl cur) = PuppeteerLinks pl" "pl \<noteq> []"
      by (auto simp: combined_pageEmpty_def split: browser_result.splits)
    let ?tr' = "tr @ es @ [PuppeteerGet (pageUrlOf fullUrl cur)] @ [Wait (theDelay env)]"
    have "pagesRequested ?tr' = pagesRequested tr @ [pageUrlOf fullUrl cur]"
      using r by simp
    moreover have "combined_scrapeRegionEvents_loop (Suc n) env fullUrl cur c acc tr =
             combined_scrapeRegionEvents_loop n env fullUrl (Suc cur) 0 (acc @ pl) ?tr'"
      using True a p by (auto simp: Let_def)
    ultimately show ?thesis by blast
  next
    case False
    let ?tr' = "tr @ es @ [Wait (theDelay env)]"
    have "pagesRequested ?tr' = pagesRequested tr @ [pageUrlOf fullUrl cur]"
      using r by simp
    moreover have "combined_scrapeRegionEvents_loop (Suc n) env fullUrl cur c acc tr =
             combined_scrapeRegionEvents_loop n env fullUrl (Suc cur) 0 (acc @ ls) ?tr'"
      using False a by (auto simp: Let_def)
    ultimately show ?thesis by blast
  qed
qed

lemma combined_loop_stops:
  assumes "\<forall>q. cur \<le> q \<and> q \<le> p \<longrightarrow> puppeteer env (pageUrlOf fullUrl q) \<noteq> PuppeteerThrew"
    and "cur \<le> p"
    and "combined_pageEmpty env (pageUrlOf fullUrl p)"
    and "prevEmpty env fullUrl cur c p"
    and "\<forall>q. cur \<le> q \<and> q < p \<longrightarrow>
           \<not> (combined_pageEmpty env (pageUrlOf fullUrl q) \<and> prevEmpty env fullUrl cur c q)"
    and "p - cur < fuel"
    and "c \<le> 1"
  shows "\<exists>acc' tr'. combined_scrapeRegionEvents_loop fuel env fullUrl cur c acc tr
                       = Some (EndOfPages, acc', tr') \<and>
           pagesRequested tr' = pagesRequested tr @ map (pageUrlOf fullUrl) [cur..<Suc p]"
  using assms
proof (induction fuel arbitrary: cur c acc tr)
  case 0
  then show ?case by simp
next
  case (Suc n)
  show ?case
  proof (cases "cur = p")
    case True
    with Suc.prems have c1: "c = 1" by (simp add: prevEmpty_def)
    from combined_loop_empty_page [where env = env and fullUrl = fullUrl and cur = cur and n = n
          and c = c and acc = acc and tr = tr] Suc.prems(3) True c1
    show ?thesis by auto
  next
    case False
    with Suc.prems have lt: "cur < p" by simp
    show ?thesis
    proof (cases "combined_pageEmpty env (pageUrlOf fullUrl cur)")
      case True
      with Suc.prems(5) lt have "\<not> prevEmpty env fullUrl cur c cur" by blast
      with Suc.prems(7) have c0: "c = 0" by (simp add: prevEmpty_def)
      from combined_loop_empty_page [OF True, where n = n and c = c and acc = acc and tr = tr] c0
      obtain tr2 where tr2: "pagesRequested tr2 = pagesRequested tr @ [pageUrlOf fullUrl cur]"
        and step: "combined_scrapeRegionEvents_loop (Suc n) env fullUrl cur c acc tr =
                     combined_scrapeRegionEvents_loop n env fullUrl (Suc cur) (Suc 0) acc
                       (tr2 @ [Wait (theDelay env)])"
        by auto
      have p4: "prevEmpty env fullUrl (Suc cur) (Suc 0) p"
        using Suc.prems(4) lt by (auto simp: prevEmpty_def)
      have p5: "\<forall>q. Suc cur \<le> q \<and> q < p \<longrightarrow>
           \<not> (combined_pageEmpty env (pageUrlOf fullUrl q) \<and> prevEmpty env fullUrl (Suc cur) (Suc 0) q)"
      proof (intro allI impI)
        fix q assume q: "Suc cur \<le> q \<and> q < p"
        with Suc.prems(5) have "\<not> (combined_pageEmpty env (pageUrlOf fullUrl q) \<and> prevEmpty env fullUrl cur c q)"
          by simp
        with q True show "\<not> (combined_pageEmpty env (pageUrlOf fullUrl q) \<and> prevEmpty env fullUrl (Suc cur) (Suc 0) q)"
          by (cases "q = Suc cur") (auto simp: prevEmpty_def)
      qed
      have h1: "\<forall>q. Suc cur \<le> q \<and> q \<le> p \<longrightarrow> puppeteer env (pageUrlOf fullUrl q) \<noteq> PuppeteerThrew"
        using Suc.prems(1) by simp
      have h2: "Suc cur \<le> p" using lt by simp
      have h6: "p - Suc cur < n" using Suc.prems(6) lt by arith
      from Suc.IH [OF h1 h2 Suc.prems(3) p4 p5 h6, of acc "tr2 @ [Wait (theDelay env)]"]
      obtain acc' tr' where
        r1: "combined_scrapeRegionEvents_loop n env fullUrl (Suc cur) (Suc 0) acc (tr2 @ [Wait (theDelay env)])
           = Some (EndOfPages, acc', tr')" and
        r2: "pagesRequested tr' = pagesRequested (tr2 @ [Wait (theDelay env)]) @ map (pageUrlOf fullUrl) [Suc cur..<Suc p]"
        by auto
      have u: "[cur..<Suc p] = cur # [Suc cur..<Suc p]"
        using lt by (simp add: upt_conv_Cons del: upt_Suc)
      have "pagesRequested tr' = pagesRequested tr @ map (pageUrlOf fullUrl) [cur..<Suc p]"
        unfolding u using r2 tr2 by simp
      with step r1 show ?thesis by simp
    next
      case False
      from Suc.prems(1) lt have nt: "puppeteer env (pageUrlOf fullUrl cur) \<noteq> PuppeteerThrew"
        by simp
      from combined_loop_full_page [OF False nt, where n = n and c = c and acc = acc and tr = tr]
      obtain acc1 tr1 where tr1: "pagesRequested tr1 = pagesRequested tr @ [pageUrlOf fullUrl cur]"
        and step: "combined_scrapeRegionEvents_loop (Suc n) env fullUrl cur c acc tr =
                     combined_scrapeRegionEvents_loop n env fullUrl (Suc cur) 0 acc1 tr1"
        by auto
      have p4: "prevEmpty env fullUrl (Suc cur) 0 p"
        using Suc.prems(4) lt False by (auto simp: prevEmpty_def)
      have p5: "\<forall>q. Suc cur \<le> q \<and> q < p \<longrightarrow>
           \<not> (combined_pageEmpty env (pageUrlOf fullUrl q) \<and> prevEmpty env fullUrl (Suc cur) 0 q)"
      proof (intro allI impI)
        fix q assume q: "Suc cur \<le> q \<and> q < p"
        with Suc.prems(5) have "\<not> (combined_pageEmpty env (pageUrlOf fullUrl q) \<and> prevEmpty env fullUrl cur c q)"
          by simp
        with q show "\<not> (combined_pageEmpty env (pageUrlOf fullUrl q) \<and> prevEmpty env fullUrl (Suc cur) 0 q)"
          by (cases "q = Suc cur") (auto simp: prevEmpty_def)
      qed
      have h1: "\<forall>q. Suc cur \<le> q \<and> q \<le> p \<longrightarrow> puppeteer env (pageUrlOf fullUrl q) \<noteq> PuppeteerThrew"
        using Suc.prems(1) by simp
      have h2: "Suc cur \<le> p" using lt by simp
      have h6: "p - Suc cur < n" using Suc.prems(6) lt by arith
      from Suc.IH [OF h1 h2 Suc.prems(3) p4 p5 h6, of acc1 tr1]
      obtain acc' tr' where
        r1: "combined_scrapeRegionEvents_loop n env fullUrl (Suc cur) 0 acc1 tr1 = Some (EndOfPages, acc', tr')" and
        r2: "pagesRequested tr' = pagesRequested tr1 @ map (pageUrlOf fullUrl) [Suc cur..<Suc p]"
        by auto
      have u: "[cur..<Suc p] = cur # [Suc cur..<Suc p]"
        using lt by (simp add: upt_conv_Cons del: upt_Suc)
      have "pagesRequested tr' = pagesRequested tr @ map (pageUrlOf fullUrl) [cur..<Suc p]"
        unfolding u using r2 tr1 by simp
      with step r1 show ?thesis by simp
    qed
  qed
qed


text \<open>One turn of the loop when axios finds nothing and the browser throws.\<close>

lemma combined_loop_browser_throws:
  assumes "puppeteer env (pageUrlOf fullUrl cur) = PuppeteerThrew"
    and "\<not> snd (fst (combined_scrapeWithAxios env (pageUrlOf fullUrl cur) 0)) \<or>
         fst (fst (combined_scrapeWithAxios env (pageUrlOf fullUrl cur) 0)) = []"
  shows "\<exists>tr'. combined_scrapeRegionEvents_loop (Suc n) env fullUrl cur c acc tr
                  = Some (BrokeOnError, acc, tr')"
proof -
  obtain ls ok es where a: "combined_scrapeWithAxios env (pageUrlOf fullUrl cur) 0 = ((ls, ok), es)"
    by (metis surj_pair)
  with assms show ?thesis by (auto simp: Let_def)
qed

lemma combined_loop_axios_links:
  assumes "snd (fst (combined_scrapeWithAxios env (pageUrlOf fullUrl cur) 0))"
    and "fst (fst (combined_scrapeWithAxios env (pageUrlOf fullUrl cur) 0)) \<noteq> []"
  shows "\<not> combined_pageEmpty env (pageUrlOf fullUrl cur) \<and>
         (\<exists>acc' tr'. pagesRequested tr' = pagesRequested tr @ [pageUrlOf fullUrl cur] \<and>
            combined_scrapeRegionEvents_loop (Suc n) env fullUrl cur c acc tr =
              combined_scrapeRegionEvents_loop n env fullUrl (Suc cur) 0 acc' tr')"
proof -
  obtain ls ok es where a: "combined_scrapeWithAxios env (pageUrlOf fullUrl cur) 0 = ((ls, ok), es)"
    by (metis surj_pair)
  have r: "pagesRequested es = [pageUrlOf fullUrl cur]"
    using combined_scrapeWithAxios_requests [of env "pageUrlOf fullUrl cur" 0] a by simp
  let ?tr' = "tr @ es @ [Wait (theDelay env)]"
  have "pagesRequested ?tr' = pagesRequested tr @ [pageUrlOf fullUrl cur]"
    using r by simp
  moreover have "combined_scrapeRegionEvents_loop (Suc n) env fullUrl cur c acc tr =
           combined_scrapeRegionEvents_loop n env fullUrl (Suc cur) 0 (acc @ ls) ?tr'"
    using assms a by (auto simp: Let_def)
  moreover have "\<not> combined_pageEmpty env (pageUrlOf fullUrl cur)"
    using assms a by (simp add: combined_pageEmpty_def)
  ultimately show ?thesis by blast
qed

text \<open>
  The loop says "no more pages" only at the second of two consecutive empty pages.
\<close>

lemma combined_loop_end_of_pages:
  assumes "combined_scrapeRegionEvents_loop fuel env fullUrl cur c acc tr = Some (EndOfPages, acc', tr')"
  shows "\<exists>p. cur \<le> p \<and>
           pagesRequested tr' = pagesRequested tr @ map (pageUrlOf fullUrl) [cur..<Suc p] \<and>
           combined_pageEmpty env (pageUrlOf fullUrl p) \<and>
           (if p = cur then 1 \<le> c else combined_pageEmpty env (pageUrlOf fullUrl (p - 1)))"
  using assms
proof (induction fuel arbitrary: cur c acc tr)
  case 0
  then show ?case by simp
next
  case (Suc n)
  let ?u = "pageUrlOf fullUrl cur"
  have rec: "\<exists>p. cur \<le> p \<and>
           pagesRequested tr' = pagesRequested tr @ map (pageUrlOf fullUrl) [cur..<Suc p] \<and>
           combined_pageEmpty env (pageUrlOf fullUrl p) \<and>
           (if p = cur then 1 \<le> c else combined_pageEmpty env (pageUrlOf fullUrl (p - 1)))"
    if step: "combined_scrapeRegionEvents_loop n env fullUrl (Suc cur) c1 acc1 tr1 = Some (EndOfPages, acc', tr')"
      and tr1: "pagesRequested tr1 = pagesRequested tr @ [?u]"
      and c1: "1 \<le> c1 \<longrightarrow> combined_pageEmpty env ?u"
    for c1 acc1 tr1
  proof -
    from Suc.IH [OF step] obtain p where p: "Suc cur \<le> p"
      "pagesRequested tr' = pagesRequested tr1 @ map (pageUrlOf fullUrl) [Suc cur..<Suc p]"
      "combined_pageEmpty env (pageUrlOf fullUrl p)"
      "if p = Suc cur then 1 \<le> c1 else combined_pageEmpty env (pageUrlOf fullUrl (p - 1))"
      by blast
    have u: "[cur..<Suc p] = cur # [Suc cur..<Suc p]"
      using p(1) by (simp add: upt_conv_Cons del: upt_Suc)
    have "pagesRequested tr' = pagesRequested tr @ map (pageUrlOf fullUrl) [cur..<Suc p]"
      unfolding u using p(2) tr1 by simp
    moreover have "combined_pageEmpty env (pageUrlOf fullUrl (p - 1))"
      using p(1,4) c1 by (cases "p = Suc cur") auto
    ultimately show ?thesis using p(1,3) by (intro exI [of _ p]) auto
  qed
  show ?case
  proof (cases "combined_pageEmpty env ?u")
    case True
    from combined_loop_empty_page [OF True, where n = n and c = c and acc = acc and tr = tr]
    obtain tr2 where tr2: "pagesRequested tr2 = pagesRequested tr @ [?u]"
      and eq: "combined_scrapeRegionEvents_loop (Suc n) env fullUrl cur c acc tr =
             (if 1 \<le> c then Some (EndOfPages, acc, tr2)
              else combined_scrapeRegionEvents_loop n env fullUrl (Suc cur) (Suc c) acc
                     (tr2 @ [Wait (theDelay env)]))"
      by blast
    show ?thesis
    proof (cases "1 \<le> c")
      case c: True
      with eq Suc.prems have "tr' = tr2" by simp
      with tr2 True c show ?thesis by (intro exI [of _ cur]) simp
    next
      case False
      with eq Suc.prems have
        "combined_scrapeRegionEvents_loop n env fullUrl (Suc cur) (Suc c) acc (tr2 @ [Wait (theDelay env)])
           = Some (EndOfPages, acc', tr')"
        by simp
      then show ?thesis using tr2 True by (intro rec [of "Suc c" acc "tr2 @ [Wait (theDelay env)]"]) simp_all
    qed
  next
    case False
    show ?thesis
    proof (cases "snd (fst (combined_scrapeWithAxios env ?u 0)) \<and>
                  fst (fst (combined_scrapeWithAxios env ?u 0)) \<noteq> []")
      case True
      from combined_loop_axios_links [where n = n and c = c and acc = acc and tr = tr] True
      obtain acc1 tr1 where tr1: "pagesRequested tr1 = pagesRequested tr @ [?u]"
        and eq: "combined_scrapeRegionEvents_loop (Suc n) env fullUrl cur c acc tr =
                   combined_scrapeRegionEvents_loop n env fullUrl (Suc cur) 0 acc1 tr1"
        by blast
      from eq Suc.prems have "combined_scrapeRegionEvents_loop n env fullUrl (Suc cur) 0 acc1 tr1
           = Some (EndOfPages, acc', tr')"
        by simp
      then show ?thesis using tr1 by (intro rec [of 0 acc1 tr1]) simp_all
    next
      case noax: False
      show ?thesis
      proof (cases "puppeteer env ?u = PuppeteerThrew")
        case True
        from combined_loop_browser_throws [OF True, where n = n and c = c and acc = acc and tr = tr] noax
        obtain t where "combined_scrapeRegionEvents_loop (Suc n) env fullUrl cur c acc tr
                  = Some (BrokeOnError, acc, t)"
          by blast
        with Suc.prems show ?thesis by simp
      next
        case nothrow: False
        from combined_loop_full_page [OF False nothrow, where n = n and c = c and acc = acc and tr = tr]
        obtain acc1 tr1 where tr1: "pagesRequested tr1 = pagesRequested tr @ [?u]"
          and eq: "combined_scrapeRegionEvents_loop (Suc n) env fullUrl cur c acc tr =
                     combined_scrapeRegionEvents_loop n env fullUrl (Suc cur) 0 acc1 tr1"
          by blast
        from eq Suc.prems have "combined_scrapeRegionEvents_loop n env fullUrl (Suc cur) 0 acc1 tr1
             = Some (EndOfPages, acc', tr')"
          by simp
        then show ?thesis using tr1 by (intro rec [of 0 acc1 tr1]) simp_all
      qed
    qed
  qed
qed

text \<open>
  Claim C5. \<open>CombinedScraper.scrapeRegionEvents\<close>, whose fetch falls back to the
  browser, ends pagination at the second of the first two consecutive empty pages: if
  pages \<open>p - 1\<close> and \<open>p\<close> are the first such pair (and the browser never throws), the
  walk ends there with \<open>hasMorePages = false\<close>, having requested the pages 1 to
  \<open>p\<close> in order and no other; an empty page between pages with links does not end it.
  Conversely, whenever a walk ends through the pagination logic, the last two pages it
  requested were both empty. In \<open>scrapeStateWorker\<close>, which fetches over HTTP only,
  one served page with no new link ends pagination at once: that page is the last
  listing request, and the code goes on to mark the state completed.
\<close>

theorem pagination_ends:
  assumes "2 \<le> p"
    and "combined_pageEmpty cenv (pageUrlOf (fullUrlOf (cBaseUrl cenv) regionUrl) (p - 1))"
    and "combined_pageEmpty cenv (pageUrlOf (fullUrlOf (cBaseUrl cenv) regionUrl) p)"
    and "\<forall>q. 2 \<le> q \<and> q < p \<longrightarrow>
           \<not> (combined_pageEmpty cenv (pageUrlOf (fullUrlOf (cBaseUrl cenv) regionUrl) (q - 1)) \<and>
              combined_pageEmpty cenv (pageUrlOf (fullUrlOf (cBaseUrl cenv) regionUrl) q))"
    and "\<forall>q. 1 \<le> q \<and> q \<le> p \<longrightarrow>
           puppeteer cenv (pageUrlOf (fullUrlOf (cBaseUrl cenv) regionUrl) q) \<noteq> PuppeteerThrew"
    and "p \<le> cfuel"
    and "isRunning w"
    and "http env (pageUrlOf fullUrl cur) 0 = HttpOk b"
    and "\<forall>link \<in> set (links b). link \<in> set (trackedEventLinks w)"
    and "combined_scrapeRegionEvents cfuel' cenv' regionUrl' = Some (EndOfPages, ls', tr')"
  shows "(\<exists>ls tr. combined_scrapeRegionEvents cfuel cenv regionUrl = Some (EndOfPages, ls, tr) \<and>
            pagesRequested tr = map (pageUrlOf (fullUrlOf (cBaseUrl cenv) regionUrl)) [1..<Suc p]) \<and>
         (\<exists>q. 2 \<le> q \<and>
            pagesRequested tr' = map (pageUrlOf (fullUrlOf (cBaseUrl cenv') regionUrl')) [1..<Suc q] \<and>
            combined_pageEmpty cenv' (pageUrlOf (fullUrlOf (cBaseUrl cenv') regionUrl') (q - 1)) \<and>
            combined_pageEmpty cenv' (pageUrlOf (fullUrlOf (cBaseUrl cenv') regionUrl') q)) \<and>
         (\<exists>w'. scrapePages (Suc fuel) env fullUrl sid sdn cur scraped w = Inr (True, cur, scraped, w') \<and>
            listingPages (trace w') = listingPages (trace w) @ [cur])"
proof -
  let ?U = "fullUrlOf (cBaseUrl cenv) regionUrl"
  have a1: "\<forall>q. 1 \<le> q \<and> q \<le> p \<longrightarrow> puppeteer cenv (pageUrlOf ?U q) \<noteq> PuppeteerThrew"
    using assms(5) .
  have a2: "1 \<le> p" using assms(1) by simp
  have a4: "prevEmpty cenv ?U 1 0 p"
    using assms(1,2) by (simp add: prevEmpty_def)
  have a5: "\<forall>q. 1 \<le> q \<and> q < p \<longrightarrow>
              \<not> (combined_pageEmpty cenv (pageUrlOf ?U q) \<and> prevEmpty cenv ?U 1 0 q)"
  proof (intro allI impI)
    fix q assume q: "1 \<le> q \<and> q < p"
    show "\<not> (combined_pageEmpty cenv (pageUrlOf ?U q) \<and> prevEmpty cenv ?U 1 0 q)"
    proof (cases "q = 1")
      case True
      then show ?thesis by (simp add: prevEmpty_def)
    next
      case False
      with q have "2 \<le> q \<and> q < p" by simp
      with assms(4) False show ?thesis by (auto simp: prevEmpty_def)
    qed
  qed
  have a6: "p - 1 < cfuel" using assms(1,6) by simp
  from combined_loop_stops [OF a1 a2 assms(3) a4 a5 a6, of "[]" "[]"]
  obtain acc tr where
    "combined_scrapeRegionEvents_loop cfuel cenv ?U 1 0 [] [] = Some (EndOfPages, acc, tr)"
    "pagesRequested tr = map (pageUrlOf ?U) [1..<Suc p]"
    by auto
  then have A: "\<exists>ls tr. combined_scrapeRegionEvents cfuel cenv regionUrl = Some (EndOfPages, ls, tr) \<and>
            pagesRequested tr = map (pageUrlOf ?U) [1..<Suc p]"
    by (simp add: combined_scrapeRegionEvents_def)
  obtain res scraped' w' where
    sp: "scrapePage env fullUrl sid sdn cur scraped 0 w = (res, scraped', w')"
    by (metis prod_cases3)
  from scrapePage_no_new_links [OF assms(8,9) sp] assms(7) sp
  have B: "\<exists>w'. scrapePages (Suc fuel) env fullUrl sid sdn cur scraped w = Inr (True, cur, scraped, w') \<and>
            listingPages (trace w') = listingPages (trace w) @ [cur]"
    by simp
  from assms(10) obtain acc' where
    l': "combined_scrapeRegionEvents_loop cfuel' cenv' (fullUrlOf (cBaseUrl cenv') regionUrl') 1 0 [] []
           = Some (EndOfPages, acc', tr')"
    by (auto simp: combined_scrapeRegionEvents_def split: option.splits)
  from combined_loop_end_of_pages [OF l'] obtain q where q: "1 \<le> q"
    "pagesRequested tr' = map (pageUrlOf (fullUrlOf (cBaseUrl cenv') regionUrl')) [1..<Suc q]"
    "combined_pageEmpty cenv' (pageUrlOf (fullUrlOf (cBaseUrl cenv') regionUrl') q)"
    "if q = 1 then (1::nat) \<le> 0
     else combined_pageEmpty cenv' (pageUrlOf (fullUrlOf (cBaseUrl cenv') regionUrl') (q - 1))"
    by auto
  from q(4) have q1: "q \<noteq> 1" by (auto split: if_splits)
  with q have C: "\<exists>q. 2 \<le> q \<and>
            pagesRequested tr' = map (pageUrlOf (fullUrlOf (cBaseUrl cenv') regionUrl')) [1..<Suc q] \<and>
            combined_pageEmpty cenv' (pageUrlOf (fullUrlOf (cBaseUrl cenv') regionUrl') (q - 1)) \<and>
            combined_pageEmpty cenv' (pageUrlOf (fullUrlOf (cBaseUrl cenv') regionUrl') q)"
    by (intro exI [of _ q]) auto
  from A B C show ?thesis by blast
qed

theorem pagination_ends_witness:
  "combined_pageEmpty twoPageRegion ''https://carcruisefinder.com/r/page/3/'' \<and>
   combined_pageEmpty twoPageRegion ''https://carcruisefinder.com/r/page/4/'' \<and>
   \<not> combined_pageEmpty twoPageRegion ''https://carcruisefinder.com/r/page/2/'' \<and>
   (\<exists>ls tr. combined_scrapeRegionEvents 4 twoPageRegion ''/r'' = Some (EndOfPages, ls, tr) \<and>
      pagesRequested tr =
        [''https://carcruisefinder.com/r'', ''https://carcruisefinder.com/r/page/2/'',
         ''https://carcruisefinder.com/r/page/3/'', ''https://carcruisefinder.com/r/page/4/'']) \<and>
   isRunning trackedWorld \<and>
   (\<exists>w'. scrapePages (Suc 0) liveSite ''https://carcruisefinder.com/iowa'' ''iowa'' ''Iowa'' 1 []
            trackedWorld = Inr (True, 1, [], w') \<and>
      listingPages (trace w') = [1])"
proof -
  let ?U = "fullUrlOf (cBaseUrl twoPageRegion) ''/r''"
  have U: "?U = ''https://carcruisefinder.com/r''" by code_simp
  have u1: "pageUrlOf ''https://carcruisefinder.com/r'' 1 = ''https://carcruisefinder.com/r''"
    and u2: "pageUrlOf ''https://carcruisefinder.com/r'' 2 = ''https://carcruisefinder.com/r/page/2/''"
    and u3: "pageUrlOf ''https://carcruisefinder.com/r'' 3 = ''https://carcruisefinder.com/r/page/3/''"
    and u4: "pageUrlOf ''https://carcruisefinder.com/r'' 4 = ''https://carcruisefinder.com/r/page/4/''"
    by code_simp+
  have e1: "\<not> combined_pageEmpty twoPageRegion ''https://carcruisefinder.com/r''"
    and e2: "\<not> combined_pageEmpty twoPageRegion ''https://carcruisefinder.com/r/page/2/''"
    and e3: "combined_pageEmpty twoPageRegion ''https://carcruisefinder.com/r/page/3/''"
    and e4: "combined_pageEmpty twoPageRegion ''https://carcruisefinder.com/r/page/4/''"
    by code_simp+
  have h1: "2 \<le> (4::nat)" by simp
  have h2: "combined_pageEmpty twoPageRegion (pageUrlOf ?U (4 - 1))"
    using e3 by (simp add: U u3)
  have h3: "combined_pageEmpty twoPageRegion (pageUrlOf ?U 4)"
    using e4 by (simp add: U u4)
  have h4: "\<forall>q. 2 \<le> q \<and> q < 4 \<longrightarrow>
           \<not> (combined_pageEmpty twoPageRegion (pageUrlOf ?U (q - 1)) \<and>
              combined_pageEmpty twoPageRegion (pageUrlOf ?U q))"
  proof (intro allI impI)
    fix q :: nat assume "2 \<le> q \<and> q < 4"
    then have "q = 2 \<or> q = 3" by arith
    then show "\<not> (combined_pageEmpty twoPageRegion (pageUrlOf ?U (q - 1)) \<and>
              combined_pageEmpty twoPageRegion (pageUrlOf ?U q))"
      using e1 e2 by (auto simp: U u1 u2)
  qed
  have h5: "\<forall>q. 1 \<le> q \<and> q \<le> 4 \<longrightarrow> puppeteer twoPageRegion (pageUrlOf ?U q) \<noteq> PuppeteerThrew"
    by (simp add: twoPageRegion_def)
  have h6: "(4::nat) \<le> 4" by simp
  have h7: "isRunning trackedWorld" by (simp add: trackedWorld_def freshWorld_def)
  have h8: "http liveSite (pageUrlOf ''https://carcruisefinder.com/iowa'' 1) 0
              = HttpOk (Body [''/e1''] noFields)"
    by (simp add: liveSite_def deadSite_def)
  have h9: "\<forall>link \<in> set (links (Body [''/e1''] noFields)). link \<in> set (trackedEventLinks trackedWorld)"
    by (simp add: trackedWorld_def)
  have m: "map (pageUrlOf ''https://carcruisefinder.com/r'') [1..<Suc 4] =
        [''https://carcruisefinder.com/r'', ''https://carcruisefinder.com/r/page/2/'',
         ''https://carcruisefinder.com/r/page/3/'', ''https://carcruisefinder.com/r/page/4/'']"
    by code_simp
  have lt: "listingPages (trace trackedWorld) = []"
    by (simp add: trackedWorld_def freshWorld_def)
  have h10: "combined_scrapeRegionEvents 4 twoPageRegion ''/r'' =
     Some (EndOfPages, [''/a'', ''/b'', ''/c''],
       [AxiosGet ''https://carcruisefinder.com/r'' 0, Wait 1000,
        AxiosGet ''https://carcruisefinder.com/r/page/2/'' 0, Wait 1000,
        AxiosGet ''https://carcruisefinder.com/r/page/3/'' 0,
        PuppeteerGet ''https://carcruisefinder.com/r/page/3/'', Wait 1000,
        AxiosGet ''https://carcruisefinder.com/r/page/4/'' 0,
        PuppeteerGet ''https://carcruisefinder.com/r/page/4/''])"
    by code_simp
  show ?thesis
    using e2 e3 e4 h7 pagination_ends [OF h1 h2 h3 h4 h5 h6 h7 h8 h9 h10,
        where fuel = 0 and sid = "''iowa''" and sdn = "''Iowa''" and scraped = "[]"]
    unfolding U m lt by simp
qed

subsection \<open>Invariants of a run\<close>

lemma delta_self [simp]: "delta w w = []"
  by (simp add: delta_def)

lemma delta_eq: "trace w' = trace w @ d \<Longrightarrow> delta w w' = d"
  by (simp add: delta_def)

lemma growsI:
  assumes "trace w' = trace w @ d"
    and "set (trackedEventLinks w) \<subseteq> set (trackedEventLinks w')"
    and "set (completedStates w) \<subseteq> set (completedStates w')"
    and "\<And>sid. lastPageOf (stateProgress w) sid \<le> lastPageOf (stateProgress w') sid"
    and "isRunning w' \<Longrightarrow> isRunning w"
    and "\<And>l. DetailGet l \<in> set d \<Longrightarrow> l \<notin> set (trackedEventLinks w)"
    and "\<And>sid p u. ListingGet sid p u \<in> set d \<Longrightarrow>
           sid \<notin> set (completedStates w) \<and> lastPageOf (stateProgress w) sid < p"
  shows "grows w w'"
  unfolding grows_def delta_eq [OF assms(1)] using assms by blast

lemma grows_refl [simp]: "grows w w"
  by (rule growsI [where d = "[]"]) simp_all

lemma grows_trace: "grows w w' \<Longrightarrow> trace w' = trace w @ delta w w'"
  by (simp add: grows_def)

lemma delta_trans:
  assumes "grows w w1" and "grows w1 w2"
  shows "delta w w2 = delta w w1 @ delta w1 w2"
proof -
  have "trace w2 = trace w @ (delta w w1 @ delta w1 w2)"
    using grows_trace [OF assms(1)] grows_trace [OF assms(2)] by simp
  then show ?thesis by (rule delta_eq)
qed

lemma grows_trans:
  assumes "grows w w1" and "grows w1 w2"
  shows "grows w w2"
proof (rule growsI [where d = "delta w w1 @ delta w1 w2"])
  show "trace w2 = trace w @ delta w w1 @ delta w1 w2"
    using grows_trace [OF assms(1)] grows_trace [OF assms(2)] by simp
  show "set (trackedEventLinks w) \<subseteq> set (trackedEventLinks w2)"
    using assms unfolding grows_def by blast
  show "set (completedStates w) \<subseteq> set (completedStates w2)"
    using assms unfolding grows_def by blast
  show "lastPageOf (stateProgress w) sid \<le> lastPageOf (stateProgress w2) sid" for sid
    using assms unfolding grows_def by (meson le_trans)
  show "isRunning w2 \<Longrightarrow> isRunning w"
    using assms unfolding grows_def by blast
  show "l \<notin> set (trackedEventLinks w)" if "DetailGet l \<in> set (delta w w1 @ delta w1 w2)" for l
    using that assms unfolding grows_def by auto
  show "sid \<notin> set (completedStates w) \<and> lastPageOf (stateProgress w) sid < p"
    if "ListingGet sid p u \<in> set (delta w w1 @ delta w1 w2)" for sid p u
  proof -
    from that consider "ListingGet sid p u \<in> set (delta w w1)" | "ListingGet sid p u \<in> set (delta w1 w2)"
      by auto
    then show ?thesis
    proof cases
      case 1
      with assms(1) show ?thesis unfolding grows_def by blast
    next
      case 2
      with assms(2) have a: "sid \<notin> set (completedStates w1)" "lastPageOf (stateProgress w1) sid < p"
        unfolding grows_def by blast+
      from assms(1) have "set (completedStates w) \<subseteq> set (completedStates w1)"
        "lastPageOf (stateProgress w) sid \<le> lastPageOf (stateProgress w1) sid"
        unfolding grows_def by blast+
      with a show ?thesis by auto
    qed
  qed
qed

lemma visitedOf_append [simp]: "visitedOf (xs @ ys) = visitedOf xs @ visitedOf ys"
  by (induction xs rule: visitedOf.induct) simp_all

lemma step_grows: "step w w' \<Longrightarrow> grows w w'"
  by (simp add: step_def)

lemma step_refl [simp]: "step w w"
  by (simp add: step_def)

lemma step_trans:
  assumes "step w w1" and "step w1 w2"
  shows "step w w2"
proof -
  have g: "grows w w1" "grows w1 w2" using assms by (simp_all add: step_def)
  show ?thesis
    using assms grows_trans [OF g] delta_trans [OF g] by (simp add: step_def)
qed

lemma stepI:
  assumes "trace w' = trace w @ d"
    and "set (trackedEventLinks w) \<subseteq> set (trackedEventLinks w')"
    and "completedStates w' = completedStates w"
    and "\<And>sid. lastPageOf (stateProgress w) sid \<le> lastPageOf (stateProgress w') sid"
    and "isRunning w' \<Longrightarrow> isRunning w"
    and "\<And>l. DetailGet l \<in> set d \<Longrightarrow> l \<notin> set (trackedEventLinks w)"
    and "\<And>sid p u. ListingGet sid p u \<in> set d \<Longrightarrow>
           sid \<notin> set (completedStates w) \<and> lastPageOf (stateProgress w) sid < p"
    and "list_all (\<lambda>e. \<not> isAbort e) d"
    and "visitedOf d = []"
  shows "step w w'"
proof -
  have "grows w w'"
    using assms(1,2,3,4,5,6,7) by (intro growsI [where d = d]) simp_all
  with assms(3,8,9) delta_eq [OF assms(1)] show ?thesis
    by (simp add: step_def)
qed

lemma step_await [simp]: "step w (await env w)"
  by (rule stepI [where d = "[]"]) simp_all

lemma step_sleep [simp]: "step w (sleep env ms w)"
  by (rule stepI [where d = "[Sleep ms]"]) simp_all

lemma step_saveProgress [simp]: "step w (saveProgress env w)"
  by (rule stepI [where d = "[SaveProgress]"]) simp_all

lemma step_emit_CsvWrite [simp]: "step w (emit (CsvWrite r) w)"
  by (rule stepI [where d = "[CsvWrite r]"]) simp_all

lemma step_emit_DetailGet: "l \<notin> set (trackedEventLinks w) \<Longrightarrow> step w (emit (DetailGet l) w)"
  by (rule stepI [where d = "[DetailGet l]"]) simp_all

lemma step_emit_ListingGet:
  "sid \<notin> set (completedStates w) \<Longrightarrow> lastPageOf (stateProgress w) sid < p \<Longrightarrow>
   step w (emit (ListingGet sid p u) w)"
  by (rule stepI [where d = "[ListingGet sid p u]"]) simp_all

lemma step_emit_Progress:
  "\<not> isAbort (Progress m) \<Longrightarrow> visitedOf [Progress m] = [] \<Longrightarrow> step w (emit (Progress m) w)"
  by (rule stepI [where d = "[Progress m]"]) simp_all

lemma step_track [simp]: "step w (w\<lparr>trackedEventLinks := set_add l (trackedEventLinks w)\<rparr>)"
  by (rule stepI [where d = "[]"]) auto

lemma step_csv [simp]: "step w (w\<lparr>csv := rows\<rparr>)"
  by (rule stepI [where d = "[]"]) auto

lemma step_processedEvents [simp]: "step w (w\<lparr>processedEvents := n\<rparr>)"
  by (rule stepI [where d = "[]"]) auto

lemma step_currentState [simp]: "step w (w\<lparr>currentState := n\<rparr>)"
  by (rule stepI [where d = "[]"]) auto

lemma lastPageOf_pageDone:
  "lastPageOf (stateProgress (pageDone sid p n w)) sid' =
     (if sid' = sid then p else lastPageOf (stateProgress w) sid')"
  by (simp add: pageDone_def lastPageOf_def)

lemma step_pageDone:
  "lastPageOf (stateProgress w) sid \<le> p \<Longrightarrow> step w (pageDone sid p n w)"
  by (rule stepI [where d = "[]"]) (auto simp: lastPageOf_pageDone, auto simp: pageDone_def)

text \<open>Steps compose; the rules below extend a stretch by one more operation.\<close>

lemma step_then_await: "step w v \<Longrightarrow> step w (await env v)"
  by (erule step_trans) simp

lemma step_then_sleep: "step w v \<Longrightarrow> step w (sleep env ms v)"
  by (erule step_trans) simp

lemma step_then_saveProgress: "step w v \<Longrightarrow> step w (saveProgress env v)"
  by (erule step_trans) simp

lemma step_then_CsvWrite: "step w v \<Longrightarrow> step w (emit (CsvWrite r) v)"
  by (erule step_trans) simp

lemma step_then_Progress:
  "step w v \<Longrightarrow> \<not> isAbort (Progress m) \<Longrightarrow> visitedOf [Progress m] = [] \<Longrightarrow>
   step w (emit (Progress m) v)"
  by (erule step_trans) (rule step_emit_Progress)

lemma step_then_DetailGet:
  "step w v \<Longrightarrow> l \<notin> set (trackedEventLinks v) \<Longrightarrow> step w (emit (DetailGet l) v)"
  by (erule step_trans) (rule step_emit_DetailGet)

lemma step_then_ListingGet:
  "step w v \<Longrightarrow> sid \<notin> set (completedStates v) \<Longrightarrow> lastPageOf (stateProgress v) sid < p \<Longrightarrow>
   step w (emit (ListingGet sid p u) v)"
  by (erule step_trans) (rule step_emit_ListingGet)

lemma step_then_track:
  "step w v \<Longrightarrow> step w (v\<lparr>trackedEventLinks := set_add l (trackedEventLinks v)\<rparr>)"
  by (erule step_trans) simp

lemma step_then_csv: "step w v \<Longrightarrow> step w (v\<lparr>csv := rows\<rparr>)"
  by (erule step_trans) simp

lemma step_then_processedEvents: "step w v \<Longrightarrow> step w (v\<lparr>processedEvents := n\<rparr>)"
  by (erule step_trans) simp

lemma step_then_pageDone:
  "step w v \<Longrightarrow> lastPageOf (stateProgress v) sid \<le> p \<Longrightarrow> step w (pageDone sid p n v)"
  by (erule step_trans) (rule step_pageDone)

lemmas step_then =
  step_then_await step_then_sleep step_then_saveProgress step_then_CsvWrite step_then_Progress
  step_then_DetailGet step_then_ListingGet step_then_track step_then_csv
  step_then_processedEvents step_then_pageDone

text \<open>
  Inside a chunk a request may be issued for a link that another member has tracked in
  the meantime; what holds is that the link was not tracked when the chunk started.
\<close>

lemma step_then_DetailGet_base:
  assumes "step w v" and "l \<notin> set (trackedEventLinks w)"
  shows "step w (emit (DetailGet l) v)"
proof (rule stepI [where d = "delta w v @ [DetailGet l]"])
  have g: "grows w v" using assms(1) by (rule step_grows)
  show "trace (emit (DetailGet l) v) = trace w @ delta w v @ [DetailGet l]"
    using grows_trace [OF g] by simp
  show "set (trackedEventLinks w) \<subseteq> set (trackedEventLinks (emit (DetailGet l) v))"
    using g by (simp add: grows_def)
  show "completedStates (emit (DetailGet l) v) = completedStates w"
    using assms(1) by (simp add: step_def)
  show "lastPageOf (stateProgress w) sid \<le> lastPageOf (stateProgress (emit (DetailGet l) v)) sid" for sid
    using g by (simp add: grows_def)
  show "isRunning (emit (DetailGet l) v) \<Longrightarrow> isRunning w"
    using g by (simp add: grows_def)
  show "l' \<notin> set (trackedEventLinks w)" if "DetailGet l' \<in> set (delta w v @ [DetailGet l])" for l'
  proof -
    from that have "DetailGet l' \<in> set (delta w v) \<or> l' = l" by auto
    with g assms(2) show ?thesis unfolding grows_def by blast
  qed
  show "sid \<notin> set (completedStates w) \<and> lastPageOf (stateProgress w) sid < p"
    if "ListingGet sid p u \<in> set (delta w v @ [DetailGet l])" for sid p u
  proof -
    from that have "ListingGet sid p u \<in> set (delta w v)" by simp
    with g show ?thesis unfolding grows_def by blast
  qed
  show "list_all (\<lambda>e. \<not> isAbort e) (delta w v @ [DetailGet l])"
    using assms(1) by (simp add: step_def)
  show "visitedOf (delta w v @ [DetailGet l]) = []"
    using assms(1) by (simp add: step_def)
qed

lemma step_tracked_mono: "step w v \<Longrightarrow> l \<notin> set (trackedEventLinks v) \<Longrightarrow> l \<notin> set (trackedEventLinks w)"
  unfolding step_def grows_def by blast

text \<open>
  What the pieces of a member keep, relative to the scraper \<open>w0\<close> at the start of the
  chunk: the stretch from \<open>w0\<close> stays a \<open>step\<close>, \<open>stateProgress\<close> is not
  touched, and the link of a pending member was not tracked at \<open>w0\<close>.
\<close>

lemma loopHead_step:
  assumes "step w0 w" and "loopHead l k w = (m, w')"
  shows "step w0 w' \<and> stateProgress w' = stateProgress w \<and>
         (\<forall>l'. linkOf m = Some l' \<longrightarrow> l' \<notin> set (trackedEventLinks w0))"
proof (cases "k < maxRetries \<and> l \<notin> set (trackedEventLinks w)")
  case False
  with assms show ?thesis by (auto simp: loopHead_def split: if_splits)
next
  case True
  then have f: "l \<notin> set (trackedEventLinks w0)"
    using assms(1) by (simp add: step_tracked_mono)
  show ?thesis
  proof (cases "0 < k")
    case True
    with \<open>k < maxRetries \<and> l \<notin> set (trackedEventLinks w)\<close> assms(2)
    have "m = AwaitingTimer l k" "w' = emit (Sleep (2 ^ k * 1000)) w"
      by (simp_all add: loopHead_def)
    moreover have "step w0 (emit (Sleep (2 ^ k * 1000)) w)"
      by (rule step_trans [OF assms(1)]) (rule stepI [where d = "[Sleep (2 ^ k * 1000)]"], simp_all)
    ultimately show ?thesis using f by simp
  next
    case False
    with \<open>k < maxRetries \<and> l \<notin> set (trackedEventLinks w)\<close> assms(2)
    have "m = AwaitingResponse l k" "w' = emit (DetailGet l) w"
      by (simp_all add: loopHead_def)
    moreover have "step w0 (emit (DetailGet l) w)"
      using assms(1) f by (rule step_then_DetailGet_base)
    ultimately show ?thesis using f by simp
  qed
qed

lemma caught_step:
  assumes "step w0 w" and "caught l k c w = (m, w')"
  shows "step w0 w' \<and> stateProgress w' = stateProgress w \<and>
         (\<forall>l'. linkOf m = Some l' \<longrightarrow> l' \<notin> set (trackedEventLinks w0))"
proof -
  define w1 where "w1 = emit (Progress (EventError l (Suc k) c)) w"
  have s1: "step w0 w1" unfolding w1_def using assms(1) by (intro step_then) simp_all
  have p1: "stateProgress w1 = stateProgress w" by (simp add: w1_def)
  show ?thesis
  proof (cases "maxRetries \<le> Suc k")
    case True
    with assms(2) have "m = Settled None" "w' = w1" by (simp_all add: caught_def Let_def w1_def)
    with s1 p1 show ?thesis by simp
  next
    case False
    with assms(2) have "loopHead l (Suc k) w1 = (m, w')" by (simp add: caught_def Let_def w1_def)
    from loopHead_step [OF s1 this] p1 show ?thesis by simp
  qed
qed

lemma resumeMember_step:
  assumes "step w0 w"
    and "\<forall>l. linkOf m = Some l \<longrightarrow> l \<notin> set (trackedEventLinks w0)"
    and "resumeMember env s m w = (m', w')"
  shows "step w0 w' \<and> stateProgress w' = stateProgress w \<and>
         (\<forall>l. linkOf m' = Some l \<longrightarrow> l \<notin> set (trackedEventLinks w0))"
proof (cases m)
  case (AwaitingTimer l k)
  with assms(3) have m': "m' = AwaitingResponse l k" and w': "w' = emit (DetailGet l) (await env w)"
    by simp_all
  have f: "l \<notin> set (trackedEventLinks w0)" using assms(2) AwaitingTimer by simp
  have "step w0 (await env w)" using assms(1) by (rule step_then_await)
  then have "step w0 w'" unfolding w' using f by (rule step_then_DetailGet_base)
  then show ?thesis using f by (simp add: m' w')
next
  case (AwaitingResponse l k)
  have f: "l \<notin> set (trackedEventLinks w0)" using assms(2) AwaitingResponse by simp
  define w2 where "w2 = await env w"
  have s2: "step w0 w2" unfolding w2_def using assms(1) by (rule step_then_await)
  have p2: "stateProgress w2 = stateProgress w" by (simp add: w2_def)
  show ?thesis
  proof (cases "http env l k")
    case (HttpError st)
    with assms(3) AwaitingResponse have "caught l k (FetchFailed st) w2 = (m', w')"
      by (simp add: Let_def w2_def)
    from caught_step [OF s2 this] p2 show ?thesis by simp
  next
    case (HttpOk b)
    define r where "r = makeRecord (detail b) s l"
    with assms(3) AwaitingResponse HttpOk have m': "m' = AwaitingWrite l k r"
      and w': "w' = emit (CsvWrite r) (w2\<lparr>trackedEventLinks := set_add l (trackedEventLinks w2)\<rparr>)"
      by (simp_all add: Let_def w2_def)
    have "step w0 w'" unfolding w' using s2 by (intro step_then) simp_all
    then show ?thesis using f p2 by (simp add: m' w')
  qed
next
  case (AwaitingWrite l k r)
  have f: "l \<notin> set (trackedEventLinks w0)" using assms(2) AwaitingWrite by simp
  define w4 where "w4 = await env w"
  have s4: "step w0 w4" unfolding w4_def using assms(1) by (rule step_then_await)
  have p4: "stateProgress w4 = stateProgress w" by (simp add: w4_def)
  show ?thesis
  proof (cases "csvOk env l")
    case True
    with assms(3) AwaitingWrite have m': "m' = Settled (Some r)"
      and w': "w' = emit (Progress (EventScraped (eventName r) s)) (w4\<lparr>csv := csv w4 @ [r]\<rparr>)"
      by (simp_all add: Let_def w4_def)
    have "step w0 w'" unfolding w' using s4 by (intro step_then) simp_all
    then show ?thesis using p4 by (simp add: m' w')
  next
    case False
    with assms(3) AwaitingWrite have "caught l k WriteFailed w4 = (m', w')"
      by (simp add: Let_def w4_def)
    from caught_step [OF s4 this] p4 show ?thesis by simp
  qed
next
  case (Settled r)
  with assms show ?thesis by auto
qed

lemma pendingOf_member:
  assumes "pendingOf ms \<noteq> []"
  shows "pendingOf ms ! (n mod length (pendingOf ms)) < length ms \<and>
         \<not> settled (ms ! (pendingOf ms ! (n mod length (pendingOf ms))))"
proof -
  have "pendingOf ms ! (n mod length (pendingOf ms)) \<in> set (pendingOf ms)"
    using assms by (simp add: nth_mem)
  then show ?thesis by (simp add: pendingOf_def)
qed

lemma runMembers_step:
  assumes "step w0 w"
    and "\<forall>m \<in> set ms. \<forall>l. linkOf m = Some l \<longrightarrow> l \<notin> set (trackedEventLinks w0)"
  shows "step w0 (snd (runMembers env s ms w)) \<and>
         stateProgress (snd (runMembers env s ms w)) = stateProgress w"
  using assms
proof (induction env s ms w rule: runMembers.induct)
  case (1 env s ms w)
  show ?case
  proof (cases "pendingOf ms = []")
    case True
    then show ?thesis using "1.prems"(1) by (simp add: runMembers.simps [of env s ms w])
  next
    case False
    define i where "i = pendingOf ms ! (arrival env (awaits w) mod length (pendingOf ms))"
    obtain m w1 where r: "resumeMember env s (ms ! i) w = (m, w1)" by (metis surj_pair)
    have lt: "i < length ms" unfolding i_def using pendingOf_member [OF False] by simp
    then have "ms ! i \<in> set ms" by simp
    with "1.prems"(2) have fi: "\<forall>l. linkOf (ms ! i) = Some l \<longrightarrow> l \<notin> set (trackedEventLinks w0)"
      by blast
    from resumeMember_step [OF "1.prems"(1) fi r]
    have s1: "step w0 w1" and p1: "stateProgress w1 = stateProgress w"
      and f1: "\<forall>l. linkOf m = Some l \<longrightarrow> l \<notin> set (trackedEventLinks w0)"
      by simp_all
    have f': "\<forall>m' \<in> set (ms[i := m]). \<forall>l. linkOf m' = Some l \<longrightarrow> l \<notin> set (trackedEventLinks w0)"
      using "1.prems"(2) f1 by (metis insert_iff set_update_subset_insert subsetD)
    have eq: "runMembers env s ms w = runMembers env s (ms[i := m]) w1"
      using False r by (simp add: runMembers.simps [of env s ms w] Let_def i_def)
    from "1.IH" [OF False i_def r [symmetric] s1 f'] p1 show ?thesis
      by (simp add: eq)
  qed
qed

lemma startMembers_step:
  assumes "step w0 w" and "startMembers ls w = (ms, w')"
  shows "step w0 w' \<and> stateProgress w' = stateProgress w \<and>
         (\<forall>m \<in> set ms. \<forall>l. linkOf m = Some l \<longrightarrow> l \<notin> set (trackedEventLinks w0))"
  using assms
proof (induction ls arbitrary: w ms w')
  case Nil
  then show ?case by simp
next
  case (Cons l ls)
  obtain m w1 where a: "loopHead l 0 w = (m, w1)" by (metis surj_pair)
  obtain ms1 w2 where b: "startMembers ls w1 = (ms1, w2)" by (metis surj_pair)
  from Cons.prems(2) a b have r: "ms = m # ms1" "w' = w2" by simp_all
  from loopHead_step [OF Cons.prems(1) a]
  have s1: "step w0 w1" and p1: "stateProgress w1 = stateProgress w"
    and f1: "\<forall>l'. linkOf m = Some l' \<longrightarrow> l' \<notin> set (trackedEventLinks w0)"
    by simp_all
  from Cons.IH [OF s1 b] p1 f1 show ?case by (simp add: r)
qed

lemma scrapeChunk_step: "step w (snd (scrapeChunk env s ls w))"
proof -
  obtain ms w1 where a: "startMembers ls w = (ms, w1)" by (metis surj_pair)
  from startMembers_step [OF step_refl a]
  have s1: "step w w1"
    and f: "\<forall>m \<in> set ms. \<forall>l. linkOf m = Some l \<longrightarrow> l \<notin> set (trackedEventLinks w)"
    by simp_all
  obtain res w2 where b: "runMembers env s ms w1 = (res, w2)" by (metis surj_pair)
  from runMembers_step [OF s1 f, of env s] a b show ?thesis
    by (simp add: scrapeChunk_def)
qed

lemma scrapeChunk_stateProgress:
  "stateProgress (snd (scrapeChunk env s ls w)) = stateProgress w"
proof -
  obtain ms w1 where a: "startMembers ls w = (ms, w1)" by (metis surj_pair)
  from startMembers_step [OF step_refl a]
  have s1: "step w w1" and p1: "stateProgress w1 = stateProgress w"
    and f: "\<forall>m \<in> set ms. \<forall>l. linkOf m = Some l \<longrightarrow> l \<notin> set (trackedEventLinks w)"
    by simp_all
  obtain res w2 where b: "runMembers env s ms w1 = (res, w2)" by (metis surj_pair)
  from runMembers_step [OF s1 f, of env s] a b p1 show ?thesis
    by (simp add: scrapeChunk_def)
qed

lemma runMembers_settled [simp]: "runMembers env s [Settled r] w = ([Settled r], w)"
  by (simp add: runMembers.simps [of env s "[Settled r]" w] pendingOf_def)

lemma runMembers_pending:
  "\<not> settled m \<Longrightarrow>
   runMembers env s [m] w = runMembers env s [fst (resumeMember env s m w)] (snd (resumeMember env s m w))"
  by (subst runMembers.simps) (simp add: pendingOf_def Let_def case_prod_beta)

lemma single_member:
  "runMembers env s [fst (loopHead l k w)] (snd (loopHead l k w)) =
     ([Settled (fst (scrapeEventDetails_loop env l s k w))], snd (scrapeEventDetails_loop env l s k w))"
proof (induction "maxRetries - k" arbitrary: k w)
  case 0
  then have "\<not> k < maxRetries" by simp
  then show ?case
    by (simp add: scrapeEventDetails_loop.simps [of env l s k w] loopHead_def)
next
  case (Suc n)
  then have k: "k < maxRetries" and n: "n = maxRetries - Suc k" by arith+
  note IH = Suc.hyps(1) [OF n]
  show ?case
  proof (cases "l \<in> set (trackedEventLinks w)")
    case True
    with k show ?thesis
      by (simp add: scrapeEventDetails_loop.simps [of env l s k w] loopHead_def)
  next
    case False
    define ws where "ws = (if 0 < k then sleep env (2 ^ k * 1000) w else w)"
    define w2 where "w2 = await env (emit (DetailGet l) ws)"
    have caught_eq: "runMembers env s [fst (caught l k c v)] (snd (caught l k c v)) =
        (if maxRetries \<le> Suc k
         then ([Settled None], emit (Progress (EventError l (Suc k) c)) v)
         else ([Settled (fst (scrapeEventDetails_loop env l s (Suc k)
                                (emit (Progress (EventError l (Suc k) c)) v)))],
               snd (scrapeEventDetails_loop env l s (Suc k)
                      (emit (Progress (EventError l (Suc k) c)) v))))" for c v
      using IH [of "emit (Progress (EventError l (Suc k) c)) v"]
      by (simp add: caught_def Let_def)
    have start: "runMembers env s [fst (loopHead l k w)] (snd (loopHead l k w)) =
        runMembers env s [AwaitingResponse l k] (emit (DetailGet l) ws)"
    proof (cases "0 < k")
      case True
      then have "loopHead l k w = (AwaitingTimer l k, emit (Sleep (2 ^ k * 1000)) w)"
        using k False by (simp add: loopHead_def)
      then show ?thesis
        using True by (simp add: runMembers_pending ws_def sleep_def)
    next
      case nz: False
      then have "loopHead l k w = (AwaitingResponse l k, emit (DetailGet l) w)"
        using k False by (simp add: loopHead_def)
      then show ?thesis using nz by (simp add: ws_def)
    qed
    show ?thesis
    proof (cases "http env l k")
      case (HttpError st)
      have "runMembers env s [AwaitingResponse l k] (emit (DetailGet l) ws) =
          runMembers env s [fst (caught l k (FetchFailed st) w2)] (snd (caught l k (FetchFailed st) w2))"
        using HttpError by (simp add: runMembers_pending Let_def w2_def)
      moreover have "scrapeEventDetails_loop env l s k w =
          (if maxRetries \<le> Suc k then (None, emit (Progress (EventError l (Suc k) (FetchFailed st))) w2)
           else scrapeEventDetails_loop env l s (Suc k)
                  (emit (Progress (EventError l (Suc k) (FetchFailed st))) w2))"
        using k False HttpError
        by (simp add: scrapeEventDetails_loop.simps [of env l s k w] Let_def ws_def w2_def)
      ultimately show ?thesis by (simp add: start caught_eq)
    next
      case (HttpOk b)
      define r where "r = makeRecord (detail b) s l"
      define w3 where "w3 = w2\<lparr>trackedEventLinks := set_add l (trackedEventLinks w2)\<rparr>"
      define w4 where "w4 = await env (emit (CsvWrite r) w3)"
      have a: "runMembers env s [AwaitingResponse l k] (emit (DetailGet l) ws) =
          runMembers env s [AwaitingWrite l k r] (emit (CsvWrite r) w3)"
        using HttpOk by (simp add: runMembers_pending Let_def w2_def w3_def r_def)
      have b: "runMembers env s [AwaitingWrite l k r] (emit (CsvWrite r) w3) =
          (if csvOk env l
           then ([Settled (Some r)],
                 emit (Progress (EventScraped (eventName r) s)) (w4\<lparr>csv := csv w4 @ [r]\<rparr>))
           else runMembers env s [fst (caught l k WriteFailed w4)] (snd (caught l k WriteFailed w4)))"
        by (simp add: runMembers_pending Let_def w4_def)
      have c: "scrapeEventDetails_loop env l s k w =
          (if csvOk env l
           then (Some r, emit (Progress (EventScraped (eventName r) s)) (w4\<lparr>csv := csv w4 @ [r]\<rparr>))
           else if maxRetries \<le> Suc k then (None, emit (Progress (EventError l (Suc k) WriteFailed)) w4)
           else scrapeEventDetails_loop env l s (Suc k)
                  (emit (Progress (EventError l (Suc k) WriteFailed)) w4))"
        using k False HttpOk
        by (simp add: scrapeEventDetails_loop.simps [of env l s k w] Let_def
              ws_def w2_def w3_def w4_def r_def)
      show ?thesis by (simp add: start a b c caught_eq)
    qed
  qed
qed

text \<open>
  A member that runs alone is \<open>scrapeEventDetails\<close> awaited on its own: a chunk of one
  link has the effects and the result of the call.
\<close>

lemma scrapeChunk_single:
  "scrapeChunk env s [l] w =
     ((if fst (scrapeEventDetails env l s w) = None then 0 else 1), snd (scrapeEventDetails env l s w))"
  using single_member [of env s l 0 w]
  by (simp add: scrapeChunk_def scrapeEventDetails_def case_prod_beta)

lemma step_aborted:
  assumes "step w w1" and "aborted w1 w2"
  shows "aborted w w2"
proof -
  from assms(2) obtain v s where v: "step w1 v" "\<not> isRunning v"
    "w2 = emit (Progress (StateAborted s)) v \<or> w2 = emit (Progress (EventsAborted s)) v"
    unfolding aborted_def by blast
  from step_trans [OF assms(1) v(1)] v(2,3) show ?thesis
    unfolding aborted_def by blast
qed

lemma abortedI:
  "\<not> isRunning w \<Longrightarrow> aborted w (emit (Progress (StateAborted s)) w)"
  "\<not> isRunning w \<Longrightarrow> aborted w (emit (Progress (EventsAborted s)) w)"
  unfolding aborted_def using step_refl by blast+

lemma scrapeChunks_step:
  "scrapeChunks env sdn cs w = (ok, w') \<Longrightarrow> (if ok then step w w' else aborted w w')"
proof (induction cs arbitrary: w)
  case Nil
  then show ?case by auto
next
  case (Cons c cs)
  show ?case
  proof (cases "isRunning w")
    case False
    with Cons.prems show ?thesis by (auto simp: abortedI)
  next
    case True
    obtain n w1 where a: "scrapeChunk env sdn c w = (n, w1)" by (metis surj_pair)
    define w4 where "w4 = saveProgress env
        (emit (Progress (OverallProgress (processedEvents w1 + n) (totalEventsFound w1)))
           (w1\<lparr>processedEvents := processedEvents w1 + n\<rparr>))"
    have "step w w1" using scrapeChunk_step [of w env sdn c] a by simp
    then have s4: "step w w4"
      unfolding w4_def by (intro step_then) simp_all
    from Cons.prems True a have "scrapeChunks env sdn cs w4 = (ok, w')"
      by (simp add: Let_def w4_def)
    from Cons.IH [OF this] s4 show ?thesis
      by (auto intro: step_trans step_aborted)
  qed
qed

text \<open>Nothing below the page loop touches \<open>stateProgress\<close>.\<close>

lemma scrapeChunks_stateProgress:
  "stateProgress (snd (scrapeChunks env sdn cs w)) = stateProgress w"
proof (induction cs arbitrary: w)
  case Nil
  show ?case by simp
next
  case (Cons c cs)
  obtain n w1 where a: "scrapeChunk env sdn c w = (n, w1)" by (metis surj_pair)
  have "stateProgress w1 = stateProgress w"
    using scrapeChunk_stateProgress [of env sdn c w] a by simp
  then show ?case using a by (simp add: Let_def Cons)
qed

lemma step_completedStates: "step w w' \<Longrightarrow> completedStates w' = completedStates w"
  by (simp add: step_def)

lemma scrapePage_step:
  assumes "sid \<notin> set (completedStates w)"
    and "lastPageOf (stateProgress w) sid < p"
    and "scrapePage env fullUrl sid sdn p sc k w = (res, sc', w')"
  shows "(if res = WorkerReturned then aborted w w' else step w w') \<and>
         (res = PageScraped \<longrightarrow> lastPageOf (stateProgress w') sid = p)"
  using assms
proof (induction "maxRetries - k" arbitrary: k w)
  case 0
  then have "\<not> k < maxRetries" by simp
  with "0.prems" show ?case
    by (simp add: scrapePage.simps [of env fullUrl sid sdn p sc k w])
next
  case (Suc n)
  then have k: "k < maxRetries" and n: "n = maxRetries - Suc k" by arith+
  note IH = Suc.hyps(1) [OF n]
  define url where "url = pageUrlOf fullUrl p"
  define w1 where "w1 = emit (Progress (PageProgress sdn p (length sc))) w"
  define w2 where "w2 = (if 0 < k then emit (Progress (PageRetry sdn p k)) (sleep env (2 ^ k * 1000) w1) else w1)"
  define w3 where "w3 = await env (emit (ListingGet sid p url) w2)"
  have s2: "step w w2"
    unfolding w2_def w1_def by (auto intro!: step_then)
  have f2: "completedStates w2 = completedStates w" "stateProgress w2 = stateProgress w"
    "trackedEventLinks w3 = trackedEventLinks w"
    by (simp_all add: w3_def w2_def w1_def)
  have s3: "step w w3"
    unfolding w3_def using s2 Suc.prems(1,2) f2 by (intro step_then) simp_all
  have f3: "completedStates w3 = completedStates w" "stateProgress w3 = stateProgress w"
    by (simp_all add: w3_def f2)
  have eq0: "scrapePage env fullUrl sid sdn p sc k w =
      (case http env url k of
         HttpOk b \<Rightarrow>
           (let eventLinks = filter (\<lambda>link. link \<notin> set (trackedEventLinks w3)) (links b)
            in if eventLinks = [] then (PaginationEnded, sc, w3)
               else
                 (case scrapeChunks env sdn (chunksOf (theMaxConcurrency env) eventLinks) w3 of
                    (False, w4) \<Rightarrow> (WorkerReturned, sc, w4)
                  | (True, w4) \<Rightarrow>
                      (let w5 = pageDone sid p (length eventLinks) w4;
                           w6 = saveProgress env w5;
                           w7 = sleep env 1000 w6
                       in (PageScraped, sc @ eventLinks, w7))))
       | HttpError status \<Rightarrow>
           (let w4 = emit (Progress (PageError sdn p (Suc k) status)) w3
            in if status = Some 404 then (PaginationEnded, sc, w4)
               else if maxRetries \<le> Suc k then (RetriesExhausted, sc, w4)
               else scrapePage env fullUrl sid sdn p sc (Suc k) w4))"
    by (subst scrapePage.simps) (simp only: k if_True Let_def url_def w1_def w2_def w3_def)
  show ?case
  proof (cases "http env url k")
    case (HttpError st)
    define w4 where "w4 = emit (Progress (PageError sdn p (Suc k) st)) w3"
    have s4: "step w w4" unfolding w4_def using s3 by (intro step_then) simp_all
    have f4: "sid \<notin> set (completedStates w4)" "lastPageOf (stateProgress w4) sid < p"
      using Suc.prems(1,2) by (simp_all add: w4_def f3)
    have eq: "scrapePage env fullUrl sid sdn p sc k w =
        (if st = Some 404 then (PaginationEnded, sc, w4)
         else if maxRetries \<le> Suc k then (RetriesExhausted, sc, w4)
         else scrapePage env fullUrl sid sdn p sc (Suc k) w4)"
      using HttpError by (simp add: eq0 Let_def w4_def)
    show ?thesis
    proof (cases "st = Some 404 \<or> maxRetries \<le> Suc k")
      case True
      with eq Suc.prems(3) s4 show ?thesis by (auto split: if_splits)
    next
      case False
      with eq Suc.prems(3) have "scrapePage env fullUrl sid sdn p sc (Suc k) w4 = (res, sc', w')"
        by simp
      from IH [OF f4 this] s4 show ?thesis
        by (auto intro: step_trans step_aborted)
    qed
  next
    case (HttpOk b)
    define eventLinks where "eventLinks = filter (\<lambda>link. link \<notin> set (trackedEventLinks w3)) (links b)"
    obtain ok w4 where c: "scrapeChunks env sdn (chunksOf (theMaxConcurrency env) eventLinks) w3 = (ok, w4)"
      by (metis surj_pair)
    define w7 where "w7 = sleep env 1000 (saveProgress env (pageDone sid p (length eventLinks) w4))"
    have eq: "scrapePage env fullUrl sid sdn p sc k w =
        (if eventLinks = [] then (PaginationEnded, sc, w3)
         else if ok then (PageScraped, sc @ eventLinks, w7)
         else (WorkerReturned, sc, w4))"
      using HttpOk c by (simp add: eq0 Let_def w7_def eventLinks_def)
    from scrapeChunks_step [OF c] have c4: "if ok then step w3 w4 else aborted w3 w4" .
    have sp4: "stateProgress w4 = stateProgress w"
      using scrapeChunks_stateProgress [of env sdn "chunksOf (theMaxConcurrency env) eventLinks" w3] c
      by (simp add: f3)
    show ?thesis
    proof (cases "eventLinks = []")
      case True
      with eq Suc.prems(3) s3 show ?thesis by auto
    next
      case False
      show ?thesis
      proof (cases ok)
        case True
        with c4 s3 have s4: "step w w4" by (auto intro: step_trans)
        have s7: "step w w7"
          unfolding w7_def using s4 Suc.prems(2) sp4 by (intro step_then) simp_all
        have "lastPageOf (stateProgress w7) sid = p"
          by (simp add: w7_def lastPageOf_pageDone)
        with eq Suc.prems(3) False True s7 show ?thesis by auto
      next
        case nok: False
        with c4 s3 have "aborted w w4" by (auto intro: step_aborted)
        with eq Suc.prems(3) False nok show ?thesis by auto
      qed
    qed
  qed
qed

lemma scrapePages_step:
  assumes "sid \<notin> set (completedStates w)"
    and "lastPageOf (stateProgress w) sid < cur"
    and "scrapePages fuel env fullUrl sid sdn cur sc w = Inr (flag, cp, sc', w')"
  shows "if flag then step w w' else aborted w w'"
  using assms
proof (induction fuel arbitrary: cur sc w)
  case 0
  then show ?case by simp
next
  case (Suc fuel)
  show ?case
  proof (cases "isRunning w")
    case False
    with Suc.prems(3) show ?thesis by (auto simp: abortedI)
  next
    case True
    obtain res sc1 w1 where p: "scrapePage env fullUrl sid sdn cur sc 0 w = (res, sc1, w1)"
      by (metis prod_cases3)
    from scrapePage_step [OF Suc.prems(1,2) p]
    have r: "if res = WorkerReturned then aborted w w1 else step w w1"
      and l: "res = PageScraped \<longrightarrow> lastPageOf (stateProgress w1) sid = cur"
      by simp_all
    show ?thesis
    proof (cases res)
      case PageScraped
      with r l have s1: "step w w1" and l1: "lastPageOf (stateProgress w1) sid < Suc cur"
        by simp_all
      have c1: "sid \<notin> set (completedStates w1)"
        using step_completedStates [OF s1] Suc.prems(1) by simp
      from Suc.prems(3) True p PageScraped
      have "scrapePages fuel env fullUrl sid sdn (Suc cur) sc1 w1 = Inr (flag, cp, sc', w')"
        by simp
      from Suc.IH [OF c1 l1 this] s1 show ?thesis
        by (auto intro: step_trans step_aborted)
    next
      case PaginationEnded
      with Suc.prems(3) True p r show ?thesis by auto
    next
      case RetriesExhausted
      with Suc.prems(3) True p r show ?thesis by auto
    next
      case WorkerReturned
      with Suc.prems(3) True p r show ?thesis by auto
    qed
  qed
qed

text \<open>A page loop that is still running has not observed a stop request.\<close>

lemma scrapePages_running:
  assumes "sid \<notin> set (completedStates w)"
    and "lastPageOf (stateProgress w) sid < cur"
    and "scrapePages fuel env fullUrl sid sdn cur sc w = Inl w'"
  shows "step w w'"
  using assms
proof (induction fuel arbitrary: cur sc w)
  case 0
  then show ?case by simp
next
  case (Suc fuel)
  show ?case
  proof (cases "isRunning w")
    case False
    with Suc.prems(3) show ?thesis by simp
  next
    case True
    obtain res sc1 w1 where p: "scrapePage env fullUrl sid sdn cur sc 0 w = (res, sc1, w1)"
      by (metis prod_cases3)
    from scrapePage_step [OF Suc.prems(1,2) p]
    have r: "if res = WorkerReturned then aborted w w1 else step w w1"
      and l: "res = PageScraped \<longrightarrow> lastPageOf (stateProgress w1) sid = cur"
      by simp_all
    show ?thesis
    proof (cases res)
      case PageScraped
      with r l have s1: "step w w1" and l1: "lastPageOf (stateProgress w1) sid < Suc cur"
        by simp_all
      have c1: "sid \<notin> set (completedStates w1)"
        using step_completedStates [OF s1] Suc.prems(1) by simp
      from Suc.prems(3) True p PageScraped
      have "scrapePages fuel env fullUrl sid sdn (Suc cur) sc1 w1 = Inl w'"
        by simp
      from s1 Suc.IH [OF c1 l1 this] show ?thesis by (rule step_trans)
    next
      case PaginationEnded
      with Suc.prems(3) True p show ?thesis by simp
    next
      case RetriesExhausted
      with Suc.prems(3) True p show ?thesis by simp
    next
      case WorkerReturned
      with Suc.prems(3) True p show ?thesis by simp
    qed
  qed
qed

lemma quietAfterStop_noAbort:
  "list_all (\<lambda>e. \<not> isAbort e) d \<Longrightarrow> quietAfterStop (d @ es) = quietAfterStop es"
  by (induction d) simp_all

lemma quietAfterStop_halting: "list_all isHalting es \<Longrightarrow> quietAfterStop es"
  by (induction es) simp_all

lemma quietAfterStop_append_halting:
  "quietAfterStop d \<Longrightarrow> list_all isHalting es \<Longrightarrow> quietAfterStop (d @ es)"
  by (induction d) (simp_all add: quietAfterStop_halting)

lemma delta_emit [simp]: "delta w (emit e w) = [e]"
  by (simp add: delta_def)

lemma grows_emit_Progress [simp]: "grows w (emit (Progress m) w)"
  by (rule growsI [where d = "[Progress m]"]) simp_all

lemma step_leg: "step w w' \<Longrightarrow> leg w w'"
  by (simp add: step_def leg_def quietAfterStop_noAbort [where es = "[]", simplified])

lemma aborted_leg:
  assumes "aborted w w'"
  shows "leg w w'"
proof -
  from assms obtain v a where v: "step w v" "\<not> isRunning v" "w' = emit (Progress a) v"
    "isAbort (Progress a)" "visitedOf [Progress a] = []"
    unfolding aborted_def by auto
  have g1: "grows w v" using v(1) by (rule step_grows)
  have g2: "grows v w'" using v(3) by simp
  have d: "delta w w' = delta w v @ [Progress a]"
    using delta_trans [OF g1 g2] v(3) by simp
  have "quietAfterStop (delta w v @ [Progress a])"
    using v(1,4) by (simp add: step_def quietAfterStop_noAbort)
  with grows_trans [OF g1 g2] d v show ?thesis
    by (simp add: leg_def step_def)
qed

lemma leg_grows: "leg w w' \<Longrightarrow> grows w w'"
  by (simp add: leg_def)

lemma grows_markCompleted: "grows w (markCompleted env sid sdn cp sc w)"
  unfolding markCompleted_def
  by (rule growsI [where d = "[Progress (StateCompleted sdn (cp - 1) (length sc)), SaveProgress]"])
     auto

lemma delta_markCompleted:
  "delta w (markCompleted env sid sdn cp sc w)
     = [Progress (StateCompleted sdn (cp - 1) (length sc)), SaveProgress]"
  unfolding markCompleted_def by (rule delta_eq) simp

lemma step_markCompleted_leg:
  assumes "step w v"
  shows "leg w (markCompleted env sid sdn cp sc v)"
proof -
  have g1: "grows w v" using assms by (rule step_grows)
  have g2: "grows v (markCompleted env sid sdn cp sc v)" by (rule grows_markCompleted)
  have d: "delta w (markCompleted env sid sdn cp sc v)
             = delta w v @ [Progress (StateCompleted sdn (cp - 1) (length sc)), SaveProgress]"
    using delta_trans [OF g1 g2] by (simp add: delta_markCompleted)
  show ?thesis
    using grows_trans [OF g1 g2] assms
    by (simp add: leg_def d step_def quietAfterStop_noAbort)
qed

lemma lastPageOf_less_startPage: "lastPageOf (stateProgress w) sid < startPage w sid"
  by (simp add: lastPageOf_def startPage_def split: option.splits)

lemma scrapeStateWorker_leg:
  assumes "scrapeStateWorker fuel env link name w = Inr (r, w')"
  shows "leg w w'"
proof (cases "isRunning w")
  case False
  with assms have "w' = emit (Progress (StateAborted name)) w"
    by (simp add: scrapeStateWorker_def)
  with False show ?thesis by (simp add: aborted_leg abortedI)
next
  case True
  show ?thesis
  proof (cases "stateIdOf name \<in> set (completedStates w)")
    case skipped: True
    with True assms have "w' = emit (Progress (StateSkipped name)) w"
      by (simp add: scrapeStateWorker_def Let_def)
    then show ?thesis by (simp add: step_leg step_emit_Progress)
  next
    case False
    define sid where "sid = stateIdOf name"
    define cur where "cur = startPage w sid"
    define w1 where "w1 = (if 1 < cur then emit (Progress (StateResumed name cur)) w else w)"
    define sdn where "sdn = orElse name (orElse (getStateFromUrl env link) ''Unknown State'')"
    have s1: "step w w1" by (simp add: w1_def step_emit_Progress)
    have c1: "sid \<notin> set (completedStates w1)" using False by (simp add: w1_def sid_def)
    have l1: "lastPageOf (stateProgress w1) sid < cur"
      using lastPageOf_less_startPage [of w sid] by (simp add: w1_def cur_def)
    have eq: "scrapeStateWorker fuel env link name w =
        (case scrapePages fuel env (fullUrlOf (baseUrl env) link) sid sdn cur [] w1 of
           Inl w2 \<Rightarrow> Inl w2
         | Inr (False, currentPage', scraped, w2) \<Rightarrow> Inr (scraped, w2)
         | Inr (True, currentPage', scraped, w2) \<Rightarrow>
             Inr (scraped, markCompleted env sid sdn currentPage' scraped w2))"
      by (simp only: scrapeStateWorker_def True False not_True_eq_False if_False if_True Let_def
            sid_def cur_def w1_def sdn_def)
    from assms eq obtain flag cp sc w2 where
      p: "scrapePages fuel env (fullUrlOf (baseUrl env) link) sid sdn cur [] w1 = Inr (flag, cp, sc, w2)"
      and w': "w' = (if flag then markCompleted env sid sdn cp sc w2 else w2)"
      by (auto split: sum.splits bool.splits)
    from scrapePages_step [OF c1 l1 p] have r: "if flag then step w1 w2 else aborted w1 w2" .
    show ?thesis
    proof (cases flag)
      case True
      with r s1 have "step w w2" by (auto intro: step_trans)
      with w' True show ?thesis by (simp add: step_markCompleted_leg)
    next
      case False
      with r s1 have "aborted w w2" by (auto intro: step_aborted)
      with w' False show ?thesis by (simp add: aborted_leg)
    qed
  qed
qed

lemma scrapeStateWorker_running:
  assumes "scrapeStateWorker fuel env link name w = Inl w'"
  shows "step w w'"
proof (cases "isRunning w \<and> stateIdOf name \<notin> set (completedStates w)")
  case False
  with assms show ?thesis by (auto simp: scrapeStateWorker_def Let_def split: if_splits)
next
  case True
  define sid where "sid = stateIdOf name"
  define cur where "cur = startPage w sid"
  define w1 where "w1 = (if 1 < cur then emit (Progress (StateResumed name cur)) w else w)"
  define sdn where "sdn = orElse name (orElse (getStateFromUrl env link) ''Unknown State'')"
  have s1: "step w w1" by (simp add: w1_def step_emit_Progress)
  have c1: "sid \<notin> set (completedStates w1)" using True by (simp add: w1_def sid_def)
  have l1: "lastPageOf (stateProgress w1) sid < cur"
    using lastPageOf_less_startPage [of w sid] by (simp add: w1_def cur_def)
  have r: "isRunning w" and c: "stateIdOf name \<notin> set (completedStates w)"
    using True by simp_all
  have eq: "scrapeStateWorker fuel env link name w =
      (case scrapePages fuel env (fullUrlOf (baseUrl env) link) sid sdn cur [] w1 of
         Inl w2 \<Rightarrow> Inl w2
       | Inr (False, currentPage', scraped, w2) \<Rightarrow> Inr (scraped, w2)
       | Inr (True, currentPage', scraped, w2) \<Rightarrow>
           Inr (scraped, markCompleted env sid sdn currentPage' scraped w2))"
    using r c
    by (simp only: scrapeStateWorker_def not_True_eq_False if_False if_True Let_def
          sid_def cur_def w1_def sdn_def simp_thms)
  from assms eq have
    "scrapePages fuel env (fullUrlOf (baseUrl env) link) sid sdn cur [] w1 = Inl w'"
    by (auto split: sum.splits bool.splits)
  from s1 scrapePages_running [OF c1 l1 this] show ?thesis by (rule step_trans)
qed

lemma grows_saveProgress_emit:
  "grows w (saveProgress env (emit (Progress m) w))"
  by (rule growsI [where d = "[Progress m, SaveProgress]"]) simp_all

lemma delta_saveProgress_emit:
  "delta w (saveProgress env (emit e w)) = [e, SaveProgress]"
  by (rule delta_eq) simp

text \<open>Once the stop request is visible at the partition poll, the loop halts at once.\<close>

lemma scrapeAllEvents_loop_halted:
  assumes "\<not> isRunning w \<or> \<not> globalRunning w"
  shows "\<exists>w'. scrapeAllEvents_loop fuel env sl i w = Inr w' \<and>
           list_all isHalting (delta w w') \<and> grows w w' \<and> visitedOf (delta w w') = [] \<and>
           snapshot w' = snapshot w"
proof (cases "i < length sl")
  case True
  with assms have "scrapeAllEvents_loop fuel env sl i w
      = Inr (saveProgress env (emit (Progress (Stopped i)) w))"
    by (subst scrapeAllEvents_loop.simps) auto
  then show ?thesis
    by (simp add: delta_saveProgress_emit grows_saveProgress_emit snapshot_def)
next
  case False
  then have "scrapeAllEvents_loop fuel env sl i w
      = Inr (emit (Progress (ScrapingComplete (totalEventsFound w))) w)"
    by (subst scrapeAllEvents_loop.simps) simp
  then show ?thesis by (simp add: snapshot_def)
qed

lemma grows_currentState_emit:
  "grows w (emit (Progress m) (w\<lparr>currentState := i\<rparr>))"
  by (rule growsI [where d = "[Progress m]"]) simp_all

lemma delta_currentState_emit:
  "delta w (emit e (w\<lparr>currentState := i\<rparr>)) = [e]"
  by (rule delta_eq) simp

lemma upt_empty_ex: "\<exists>k. [] = [i..<k]"
  by (rule exI [of _ i]) simp

lemma scrapeAllEvents_loop_run:
  assumes "scrapeAllEvents_loop fuel env sl i w = Inr w'"
  shows "grows w w' \<and> quietAfterStop (delta w w') \<and> (\<exists>k. visitedOf (delta w w') = [i..<k])"
  using assms
proof (induction "length sl - i" arbitrary: i w)
  case 0
  then have "\<not> i < length sl" by simp
  then have "scrapeAllEvents_loop fuel env sl i w
      = Inr (emit (Progress (ScrapingComplete (totalEventsFound w))) w)"
    by (subst scrapeAllEvents_loop.simps) simp
  with "0.prems" have "w' = emit (Progress (ScrapingComplete (totalEventsFound w))) w" by simp
  then show ?case by (simp add: upt_empty_ex)
next
  case (Suc n)
  then have lt: "i < length sl" and n: "n = length sl - Suc i" by arith+
  note IH = Suc.hyps(1) [OF n]
  show ?case
  proof (cases "\<not> isRunning w \<or> \<not> globalRunning w")
    case True
    from scrapeAllEvents_loop_halted [OF True, of fuel env sl i] Suc.prems
    have "list_all isHalting (delta w w')" "grows w w'" "visitedOf (delta w w') = []"
      by auto
    then show ?thesis by (simp add: quietAfterStop_halting upt_empty_ex)
  next
    case False
    define w1 where "w1 = w\<lparr>currentState := i\<rparr>"
    define link where "link = fst (sl ! i)"
    define name where "name = snd (sl ! i)"
    define stateName where
      "stateName = orElse name (orElse (getStateFromUrl env link) (''State '' @ showNat (i + 1)))"
    define stateId where "stateId = stateIdOf stateName"
    define v0 where "v0 = emit (Progress (StateStarting stateName i)) w1"
    define vs where "vs = emit (Progress (SkippingCompleted stateName i)) w1"
    have eq0: "scrapeAllEvents_loop fuel env sl i w =
        (if stateId \<in> set (completedStates w1) then scrapeAllEvents_loop fuel env sl (Suc i) vs
         else
           (case scrapeStateWorker fuel env link stateName v0 of
              Inl w2 \<Rightarrow> Inl w2
            | Inr (scrapedEventLinks, w2) \<Rightarrow>
                scrapeAllEvents_loop fuel env sl (Suc i)
                  (saveProgress env
                     (emit (Progress (StateFinished stateName (length scrapedEventLinks) i)) w2))))"
      by (subst scrapeAllEvents_loop.simps)
         (simp only: lt False if_True if_False Let_def w1_def link_def name_def stateName_def
            stateId_def v0_def vs_def)
    show ?thesis
    proof (cases "stateId \<in> set (completedStates w1)")
      case True
      with eq0 Suc.prems have r: "scrapeAllEvents_loop fuel env sl (Suc i) vs = Inr w'" by simp
      from IH [OF r] obtain k where
        g: "grows vs w'" and q: "quietAfterStop (delta vs w')"
        and v: "visitedOf (delta vs w') = [Suc i..<k]"
        by auto
      have g0: "grows w vs" unfolding vs_def w1_def by (rule grows_currentState_emit)
      have d: "delta w w' = Progress (SkippingCompleted stateName i) # delta vs w'"
        using delta_trans [OF g0 g] by (simp add: vs_def w1_def delta_currentState_emit)
      have "visitedOf (delta w w') = [i..<max k (Suc i)]"
        using v by (simp add: d upt_conv_Cons max_def)
      with grows_trans [OF g0 g] q d show ?thesis by auto
    next
      case False
      with eq0 Suc.prems obtain ls w2 where
        wk: "scrapeStateWorker fuel env link stateName v0 = Inr (ls, w2)"
        and r: "scrapeAllEvents_loop fuel env sl (Suc i)
                  (saveProgress env (emit (Progress (StateFinished stateName (length ls) i)) w2)) = Inr w'"
        by (auto split: sum.splits)
      define v3 where "v3 = saveProgress env (emit (Progress (StateFinished stateName (length ls) i)) w2)"
      from IH [OF r] obtain k where
        g: "grows v3 w'" and q: "quietAfterStop (delta v3 w')"
        and v: "visitedOf (delta v3 w') = [Suc i..<k]"
        unfolding v3_def by auto
      have g0: "grows w v0" unfolding v0_def w1_def by (rule grows_currentState_emit)
      have lg: "leg v0 w2" using wk by (rule scrapeStateWorker_leg)
      have g1: "grows v0 w2" using lg by (rule leg_grows)
      have g2: "grows w2 v3" unfolding v3_def by (rule grows_saveProgress_emit)
      have g02: "grows w w2" using g0 g1 by (rule grows_trans)
      have g03: "grows w v3" using g02 g2 by (rule grows_trans)
      have d: "delta w w' = Progress (StateStarting stateName i) # delta v0 w2 @
                 [Progress (StateFinished stateName (length ls) i), SaveProgress] @ delta v3 w'"
        using delta_trans [OF g03 g] delta_trans [OF g02 g2] delta_trans [OF g0 g1]
        by (simp add: v0_def w1_def v3_def delta_currentState_emit delta_saveProgress_emit)
      have vis: "visitedOf (delta w w') = [i..<max k (Suc i)]"
        using v lg by (simp add: d leg_def upt_conv_Cons max_def)
      have quiet: "quietAfterStop (delta w w')"
      proof (cases "list_all (\<lambda>e. \<not> isAbort e) (delta v0 w2)")
        case True
        then show ?thesis using q by (simp add: d quietAfterStop_noAbort)
      next
        case False
        with lg have "\<not> isRunning w2" "quietAfterStop (delta v0 w2)" by (auto simp: leg_def)
        then have stop: "\<not> isRunning v3 \<or> \<not> globalRunning v3" by (simp add: v3_def)
        from scrapeAllEvents_loop_halted [OF stop, of fuel env sl "Suc i"] r
        have "list_all isHalting (delta v3 w')" by (auto simp: v3_def)
        then have "list_all isHalting
            ([Progress (StateFinished stateName (length ls) i), SaveProgress] @ delta v3 w')"
          by simp
        with \<open>quietAfterStop (delta v0 w2)\<close> have
          "quietAfterStop (delta v0 w2 @
             [Progress (StateFinished stateName (length ls) i), SaveProgress] @ delta v3 w')"
          by (rule quietAfterStop_append_halting)
        then show ?thesis by (simp add: d)
      qed
      from grows_trans [OF g03 g] quiet vis show ?thesis by auto
    qed
  qed
qed

text \<open>
  A loop over the states that is still running has observed no stop request: had a call
  of \<open>scrapeStateWorker\<close> observed one, the next poll would have ended the loop.
\<close>

lemma scrapeAllEvents_loop_running:
  assumes "scrapeAllEvents_loop fuel env sl i w = Inl w'"
  shows "grows w w' \<and> list_all (\<lambda>e. \<not> isAbort e) (delta w w') \<and>
         (\<exists>k. visitedOf (delta w w') = [i..<k])"
  using assms
proof (induction "length sl - i" arbitrary: i w)
  case 0
  then have "\<not> i < length sl" by simp
  then have "scrapeAllEvents_loop fuel env sl i w
      = Inr (emit (Progress (ScrapingComplete (totalEventsFound w))) w)"
    by (subst scrapeAllEvents_loop.simps) simp
  with "0.prems" show ?case by simp
next
  case (Suc n)
  then have lt: "i < length sl" and n: "n = length sl - Suc i" by arith+
  note IH = Suc.hyps(1) [OF n]
  show ?case
  proof (cases "\<not> isRunning w \<or> \<not> globalRunning w")
    case True
    from scrapeAllEvents_loop_halted [OF True, of fuel env sl i] Suc.prems
    show ?thesis by auto
  next
    case False
    define w1 where "w1 = w\<lparr>currentState := i\<rparr>"
    define link where "link = fst (sl ! i)"
    define name where "name = snd (sl ! i)"
    define stateName where
      "stateName = orElse name (orElse (getStateFromUrl env link) (''State '' @ showNat (i + 1)))"
    define stateId where "stateId = stateIdOf stateName"
    define v0 where "v0 = emit (Progress (StateStarting stateName i)) w1"
    define vs where "vs = emit (Progress (SkippingCompleted stateName i)) w1"
    have eq0: "scrapeAllEvents_loop fuel env sl i w =
        (if stateId \<in> set (completedStates w1) then scrapeAllEvents_loop fuel env sl (Suc i) vs
         else
           (case scrapeStateWorker fuel env link stateName v0 of
              Inl w2 \<Rightarrow> Inl w2
            | Inr (scrapedEventLinks, w2) \<Rightarrow>
                scrapeAllEvents_loop fuel env sl (Suc i)
                  (saveProgress env
                     (emit (Progress (StateFinished stateName (length scrapedEventLinks) i)) w2))))"
      by (subst scrapeAllEvents_loop.simps)
         (simp only: lt False if_True if_False Let_def w1_def link_def name_def stateName_def
            stateId_def v0_def vs_def)
    show ?thesis
    proof (cases "stateId \<in> set (completedStates w1)")
      case True
      with eq0 Suc.prems have r: "scrapeAllEvents_loop fuel env sl (Suc i) vs = Inl w'" by simp
      from IH [OF r] obtain k where
        g: "grows vs w'" and q: "list_all (\<lambda>e. \<not> isAbort e) (delta vs w')"
        and v: "visitedOf (delta vs w') = [Suc i..<k]"
        by auto
      have g0: "grows w vs" unfolding vs_def w1_def by (rule grows_currentState_emit)
      have d: "delta w w' = Progress (SkippingCompleted stateName i) # delta vs w'"
        using delta_trans [OF g0 g] by (simp add: vs_def w1_def delta_currentState_emit)
      have "visitedOf (delta w w') = [i..<max k (Suc i)]"
        using v by (simp add: d upt_conv_Cons max_def)
      with grows_trans [OF g0 g] q d show ?thesis by auto
    next
      case nc: False
      have g0: "grows w v0" unfolding v0_def w1_def by (rule grows_currentState_emit)
      have d0: "delta w v0 = [Progress (StateStarting stateName i)]"
        by (simp add: v0_def w1_def delta_currentState_emit)
      show ?thesis
      proof (cases "scrapeStateWorker fuel env link stateName v0")
        case (Inl w2)
        with eq0 nc Suc.prems have w': "w' = w2" by simp
        from scrapeStateWorker_running [OF Inl] have s: "step v0 w'" by (simp add: w')
        then have g1: "grows v0 w'" by (rule step_grows)
        have d: "delta w w' = Progress (StateStarting stateName i) # delta v0 w'"
          using delta_trans [OF g0 g1] d0 by simp
        have "visitedOf (delta w w') = [i..<Suc i]"
          using s by (simp add: d step_def)
        then have "\<exists>k. visitedOf (delta w w') = [i..<k]" ..
        moreover have "list_all (\<lambda>e. \<not> isAbort e) (delta w w')"
          using s by (simp add: d step_def)
        ultimately show ?thesis using grows_trans [OF g0 g1] by simp
      next
        case (Inr x)
        obtain ls w2 where x: "x = (ls, w2)" by (metis surj_pair)
        define v3 where "v3 = saveProgress env (emit (Progress (StateFinished stateName (length ls) i)) w2)"
        from eq0 nc Suc.prems Inr x have r: "scrapeAllEvents_loop fuel env sl (Suc i) v3 = Inl w'"
          by (simp add: v3_def)
        from IH [OF r] obtain k where
          g: "grows v3 w'" and q: "list_all (\<lambda>e. \<not> isAbort e) (delta v3 w')"
          and v: "visitedOf (delta v3 w') = [Suc i..<k]"
          by auto
        have lg: "leg v0 w2" using Inr x scrapeStateWorker_leg by simp
        have g1: "grows v0 w2" using lg by (rule leg_grows)
        have g2: "grows w2 v3" unfolding v3_def by (rule grows_saveProgress_emit)
        have g02: "grows w w2" using g0 g1 by (rule grows_trans)
        have g03: "grows w v3" using g02 g2 by (rule grows_trans)
        have d: "delta w w' = Progress (StateStarting stateName i) # delta v0 w2 @
                   [Progress (StateFinished stateName (length ls) i), SaveProgress] @ delta v3 w'"
          using delta_trans [OF g03 g] delta_trans [OF g02 g2] delta_trans [OF g0 g1] d0
          by (simp add: v3_def delta_saveProgress_emit)
        have vis: "visitedOf (delta w w') = [i..<max k (Suc i)]"
          using v lg by (simp add: d leg_def upt_conv_Cons max_def)
        have running: "isRunning w2"
        proof (rule ccontr)
          assume "\<not> isRunning w2"
          then have stop: "\<not> isRunning v3 \<or> \<not> globalRunning v3" by (simp add: v3_def)
          from scrapeAllEvents_loop_halted [OF stop, of fuel env sl "Suc i"] r
          show False by auto
        qed
        with lg have "list_all (\<lambda>e. \<not> isAbort e) (delta v0 w2)" by (auto simp: leg_def)
        with q have "list_all (\<lambda>e. \<not> isAbort e) (delta w w')" by (simp add: d)
        with grows_trans [OF g03 g] vis show ?thesis by auto
      qed
    qed
  qed
qed

subsection \<open>Tracked links are not fetched again\<close>

lemma reached_simps [simp]: "reached f (Inl w) = w" "reached f (Inr x) = f x"
  by (simp_all add: reached_def)

lemma grows_no_tracked_fetch:
  "grows w w' \<Longrightarrow> l \<in> set (trackedEventLinks w) \<Longrightarrow> DetailGet l \<notin> set (delta w w')"
  unfolding grows_def by blast

lemma scrapeStateWorker_grows:
  "grows w (reached snd (scrapeStateWorker fuel env link name w))"
proof (cases "scrapeStateWorker fuel env link name w")
  case (Inl w')
  then show ?thesis by (simp add: step_grows scrapeStateWorker_running)
next
  case (Inr x)
  then have "scrapeStateWorker fuel env link name w = Inr (fst x, snd x)" by simp
  then have "leg w (snd x)" by (rule scrapeStateWorker_leg)
  with Inr show ?thesis by (simp add: leg_grows)
qed

lemma scrapeAllEvents_loop_grows:
  "grows w (reached id (scrapeAllEvents_loop fuel env sl i w))"
proof (cases "scrapeAllEvents_loop fuel env sl i w")
  case (Inl w')
  then show ?thesis using scrapeAllEvents_loop_running by simp
next
  case (Inr w')
  then show ?thesis using scrapeAllEvents_loop_run by simp
qed

lemma loadProgress_trace [simp]: "trace (snd (loadProgress env w)) = trace w"
  by (simp add: loadProgress_def Let_def split: option.splits checkpoint_file.splits)

lemma scrapeAllEvents_start_trace:
  "\<exists>a b. trace (snd (scrapeAllEvents_start env sl rs w)) = trace w @ [Progress (ScraperSummary a b)]"
  by (simp add: scrapeAllEvents_start_def Let_def split: resume.splits)

text \<open>How the trace of a whole run is put together, whether it has returned or not.\<close>

lemma scrapeAllEvents_reached:
  "\<exists>w5 a b tl.
     reached id (scrapeAllEvents_loop fuel env sl (fst (scrapeAllEvents_start env sl rs w))
        (snd (scrapeAllEvents_start env sl rs w))) = w5 \<and>
     (tl = [] \<or> tl = [SaveProgress]) \<and>
     delta w (reached id (scrapeAllEvents fuel env sl rs w)) =
       Progress (ScraperSummary a b) # delta (snd (scrapeAllEvents_start env sl rs w)) w5 @ tl"
proof -
  obtain r w4 where st: "scrapeAllEvents_start env sl rs w = (r, w4)" by (metis surj_pair)
  from scrapeAllEvents_start_trace [of env sl rs w] st obtain a b where
    t4: "trace w4 = trace w @ [Progress (ScraperSummary a b)]" by auto
  define w5 where "w5 = reached id (scrapeAllEvents_loop fuel env sl r w4)"
  have "grows w4 w5" unfolding w5_def by (rule scrapeAllEvents_loop_grows)
  then have t5: "trace w5 = trace w @ Progress (ScraperSummary a b) # delta w4 w5"
    using t4 by (simp add: grows_def)
  show ?thesis
  proof (cases "scrapeAllEvents_loop fuel env sl r w4")
    case (Inl v)
    then have "reached id (scrapeAllEvents fuel env sl rs w) = w5"
      by (simp add: scrapeAllEvents_def st w5_def)
    then have "trace (reached id (scrapeAllEvents fuel env sl rs w)) =
        trace w @ (Progress (ScraperSummary a b) # delta w4 w5 @ [])"
      using t5 by simp
    then have "delta w (reached id (scrapeAllEvents fuel env sl rs w)) =
        Progress (ScraperSummary a b) # delta w4 w5 @ []"
      by (rule delta_eq)
    then show ?thesis using st w5_def by auto
  next
    case (Inr v)
    then have "reached id (scrapeAllEvents fuel env sl rs w) = saveProgress env w5"
      by (simp add: scrapeAllEvents_def st w5_def)
    then have "trace (reached id (scrapeAllEvents fuel env sl rs w)) =
        trace w @ (Progress (ScraperSummary a b) # delta w4 w5 @ [SaveProgress])"
      using t5 by simp
    then have "delta w (reached id (scrapeAllEvents fuel env sl rs w)) =
        Progress (ScraperSummary a b) # delta w4 w5 @ [SaveProgress]"
      by (rule delta_eq)
    then show ?thesis using st w5_def by auto
  qed
qed

text \<open>
  The links a page adds to \<open>scrapedEventLinks\<close> are the ones that passed the filter
  against \<open>trackedEventLinks\<close>.
\<close>

lemma scrapePage_scraped:
  "set (fst (snd (scrapePage env fullUrl sid sdn p sc k w)))
     \<subseteq> set sc \<union> {link. link \<notin> set (trackedEventLinks w)}"
proof (induction "maxRetries - k" arbitrary: k w)
  case 0
  then have "\<not> k < maxRetries" by simp
  then show ?case by (simp add: scrapePage.simps [of env fullUrl sid sdn p sc k w])
next
  case (Suc n)
  then have k: "k < maxRetries" and n: "n = maxRetries - Suc k" by arith+
  define url where "url = pageUrlOf fullUrl p"
  define w1 where "w1 = emit (Progress (PageProgress sdn p (length sc))) w"
  define w2 where "w2 = (if 0 < k then emit (Progress (PageRetry sdn p k)) (sleep env (2 ^ k * 1000) w1) else w1)"
  define w3 where "w3 = await env (emit (ListingGet sid p url) w2)"
  have t3: "trackedEventLinks w3 = trackedEventLinks w"
    by (simp add: w3_def w2_def w1_def)
  have eq0: "scrapePage env fullUrl sid sdn p sc k w =
      (case http env url k of
         HttpOk b \<Rightarrow>
           (let eventLinks = filter (\<lambda>link. link \<notin> set (trackedEventLinks w3)) (links b)
            in if eventLinks = [] then (PaginationEnded, sc, w3)
               else
                 (case scrapeChunks env sdn (chunksOf (theMaxConcurrency env) eventLinks) w3 of
                    (False, w4) \<Rightarrow> (WorkerReturned, sc, w4)
                  | (True, w4) \<Rightarrow>
                      (let w5 = pageDone sid p (length eventLinks) w4;
                           w6 = saveProgress env w5;
                           w7 = sleep env 1000 w6
                       in (PageScraped, sc @ eventLinks, w7))))
       | HttpError status \<Rightarrow>
           (let w4 = emit (Progress (PageError sdn p (Suc k) status)) w3
            in if status = Some 404 then (PaginationEnded, sc, w4)
               else if maxRetries \<le> Suc k then (RetriesExhausted, sc, w4)
               else scrapePage env fullUrl sid sdn p sc (Suc k) w4))"
    by (subst scrapePage.simps) (simp only: k if_True Let_def url_def w1_def w2_def w3_def)
  show ?case
  proof (cases "http env url k")
    case (HttpError st)
    have "set (fst (snd (scrapePage env fullUrl sid sdn p sc (Suc k)
                 (emit (Progress (PageError sdn p (Suc k) st)) w3))))
            \<subseteq> set sc \<union> {link. link \<notin> set (trackedEventLinks w)}"
      using Suc.hyps(1) [OF n, of "emit (Progress (PageError sdn p (Suc k) st)) w3"] t3 by simp
    with HttpError show ?thesis by (simp add: eq0 Let_def)
  next
    case (HttpOk b)
    then show ?thesis
      by (auto simp: eq0 Let_def t3 split: prod.splits bool.splits)
  qed
qed

text \<open>
  The dedup check guards a member when it starts and before each backoff, not the
  request that follows the backoff. When a page lists a link twice, both members pass
  the check at the start, both requests are issued, and here the second member repeats
  its request after the first has tracked the link and written its row: the link is
  fetched three times and written twice. This does not touch what follows, which is
  about links that were tracked when the chunk was started.
\<close>

lemma scrapeChunk_link_listed_twice:
  "(case scrapeChunk flakySite ''Iowa'' [''/e6'', ''/e6''] freshWorld of
      (successfulScrapes, w) \<Rightarrow>
        successfulScrapes = 2 \<and>
        trace w =
          [DetailGet ''/e6'', DetailGet ''/e6'',
           Progress (EventError ''/e6'' 1 (FetchFailed None)), Sleep 2000,
           Progress (EventError ''/e6'' 1 (FetchFailed None)), Sleep 2000,
           DetailGet ''/e6'', CsvWrite (makeRecord noFields ''Iowa'' ''/e6''),
           Progress (EventScraped ''Spring Show'' ''Iowa''),
           DetailGet ''/e6'', CsvWrite (makeRecord noFields ''Iowa'' ''/e6''),
           Progress (EventScraped ''Spring Show'' ''Iowa'')] \<and>
        trackedEventLinks w = [''/e6''] \<and> length (csv w) = 2)"
  by code_simp

text \<open>
  Claim C6. An identifier that is in \<open>trackedEventLinks\<close> when links are scheduled
  is never fetched, whatever the order in which the network completes the operations of
  the members of a chunk: \<open>scrapeEventDetails\<close> returns \<open>null\<close> for it at once,
  with no request and no other effect; the filter of a page keeps it out of the links
  that are chunked and added to \<open>scrapedEventLinks\<close>; a chunk started with the
  identifier in the set issues no detail request for it, and neither does the chunk
  loop; and no call of
  \<open>scrapeStateWorker\<close> and no run of the loop of \<open>scrapeAllEvents\<close> that starts
  with the identifier in the set issues a detail request for it, as far as it has come,
  returned or not (the links of a page are filtered against the set before they are
  chunked, and the set only grows). In a whole call of \<open>scrapeAllEvents\<close> the set
  that counts is the one the scraper has after the checkpoint was loaded.
\<close>

theorem tracked_links_never_fetched:
  assumes "l \<in> set (trackedEventLinks w)"
  shows "scrapeEventDetails env l s w = (None, w) \<and>
         startMembers [l] w = ([Settled None], w) \<and>
         (l \<notin> set scraped \<longrightarrow>
            l \<notin> set (fst (snd (scrapePage env fullUrl stateId stateDisplayName currentPage
                                   scraped retries w)))) \<and>
         DetailGet l \<notin> set (delta w (snd (scrapeChunk env s chunk w))) \<and>
         DetailGet l \<notin> set (delta w (snd (scrapeChunks env s chunks w))) \<and>
         DetailGet l \<notin> set (delta w (reached snd (scrapeStateWorker fuel env link name w))) \<and>
         DetailGet l \<notin> set (delta w (reached id (scrapeAllEvents_loop fuel env sl i w))) \<and>
         (\<forall>l'. l' \<in> set (trackedEventLinks (snd (scrapeAllEvents_start env sl rs v))) \<longrightarrow>
            DetailGet l' \<notin> set (delta v (reached id (scrapeAllEvents fuel env sl rs v))))"
proof (intro conjI allI impI)
  show "scrapeEventDetails env l s w = (None, w)"
    using assms
    by (simp add: scrapeEventDetails_def scrapeEventDetails_loop.simps [of env l s 0 w] maxRetries_def)
next
  show "startMembers [l] w = ([Settled None], w)"
    using assms by (simp add: loopHead_def maxRetries_def)
next
  assume "l \<notin> set scraped"
  with assms scrapePage_scraped [of env fullUrl stateId stateDisplayName currentPage scraped retries w]
  show "l \<notin> set (fst (snd (scrapePage env fullUrl stateId stateDisplayName currentPage
                                scraped retries w)))"
    by auto
next
  have "grows w (snd (scrapeChunk env s chunk w))"
    using scrapeChunk_step by (rule step_grows)
  then show "DetailGet l \<notin> set (delta w (snd (scrapeChunk env s chunk w)))"
    using assms by (rule grows_no_tracked_fetch)
next
  obtain ok w' where c: "scrapeChunks env s chunks w = (ok, w')" by (metis surj_pair)
  from scrapeChunks_step [OF c] have "leg w w'"
    by (auto intro: step_leg aborted_leg split: if_splits)
  then have "grows w w'" by (rule leg_grows)
  then show "DetailGet l \<notin> set (delta w (snd (scrapeChunks env s chunks w)))"
    using assms c by (simp add: grows_no_tracked_fetch)
next
  show "DetailGet l \<notin> set (delta w (reached snd (scrapeStateWorker fuel env link name w)))"
    using scrapeStateWorker_grows assms by (rule grows_no_tracked_fetch)
next
  show "DetailGet l \<notin> set (delta w (reached id (scrapeAllEvents_loop fuel env sl i w)))"
    using scrapeAllEvents_loop_grows assms by (rule grows_no_tracked_fetch)
next
  fix l' assume t: "l' \<in> set (trackedEventLinks (snd (scrapeAllEvents_start env sl rs v)))"
  let ?w4 = "snd (scrapeAllEvents_start env sl rs v)"
  let ?w5 = "reached id (scrapeAllEvents_loop fuel env sl (fst (scrapeAllEvents_start env sl rs v)) ?w4)"
  from scrapeAllEvents_reached [of fuel env sl rs v] obtain a b tl where
    tl: "tl = [] \<or> tl = [SaveProgress]"
    and d: "delta v (reached id (scrapeAllEvents fuel env sl rs v)) =
              Progress (ScraperSummary a b) # delta ?w4 ?w5 @ tl"
    by auto
  have "DetailGet l' \<notin> set (delta ?w4 ?w5)"
    using scrapeAllEvents_loop_grows t by (rule grows_no_tracked_fetch)
  with tl show "DetailGet l' \<notin> set (delta v (reached id (scrapeAllEvents fuel env sl rs v)))"
    by (auto simp: d)
qed

theorem tracked_links_never_fetched_witness:
  "''/e1'' \<in> set (trackedEventLinks trackedWorld) \<and>
   scrapeEventDetails liveSite ''/e1'' ''Iowa'' trackedWorld = (None, trackedWorld) \<and>
   ''/e1'' \<notin> set (fst (snd (scrapePage flakySite ''https://carcruisefinder.com/iowa'' ''iowa''
      ''Iowa'' 1 [] 0 trackedWorld))) \<and>
   ''/e6'' \<in> set (fst (snd (scrapePage flakySite ''https://carcruisefinder.com/iowa'' ''iowa''
      ''Iowa'' 1 [] 0 trackedWorld))) \<and>
   DetailGet ''/e1'' \<notin> set (delta trackedWorld
      (snd (scrapeChunk liveSite ''Iowa'' [''/e1'', ''/e2'', ''/e1''] trackedWorld))) \<and>
   DetailGet ''/e2'' \<in> set (delta trackedWorld
      (snd (scrapeChunk liveSite ''Iowa'' [''/e1'', ''/e2'', ''/e1''] trackedWorld))) \<and>
   DetailGet ''/e1'' \<notin> set (delta trackedWorld
      (reached snd (scrapeStateWorker 1 liveSite ''/iowa'' ''Iowa'' trackedWorld))) \<and>
   ''/e1'' \<in> set (trackedEventLinks (snd (scrapeAllEvents_start liveSite twoStates (FromIndex 0)
      trackedWorld))) \<and>
   DetailGet ''/e1'' \<notin> set (delta trackedWorld
      (reached id (scrapeAllEvents 1 liveSite twoStates (FromIndex 0) trackedWorld)))"
proof -
  have h: "''/e1'' \<in> set (trackedEventLinks trackedWorld)"
    by (simp add: trackedWorld_def)
  have c: "DetailGet ''/e2'' \<in> set (delta trackedWorld
      (snd (scrapeChunk liveSite ''Iowa'' [''/e1'', ''/e2'', ''/e1''] trackedWorld)))"
    by code_simp
  have t: "''/e1'' \<in> set (trackedEventLinks (snd (scrapeAllEvents_start liveSite twoStates (FromIndex 0)
      trackedWorld)))"
    by code_simp
  have p: "''/e6'' \<in> set (fst (snd (scrapePage flakySite ''https://carcruisefinder.com/iowa'' ''iowa''
      ''Iowa'' 1 [] 0 trackedWorld)))"
    by code_simp
  have e: "''/e1'' \<notin> set []" by simp
  from tracked_links_never_fetched [OF h, where env = liveSite and s = "''Iowa''" and fuel = 1
      and link = "''/iowa''" and name = "''Iowa''" and chunk = "[''/e1'', ''/e2'', ''/e1'']"
      and rs = "FromIndex 0" and sl = twoStates and v = trackedWorld]
    tracked_links_never_fetched [OF h, where env = flakySite and scraped = "[]"
      and fullUrl = "''https://carcruisefinder.com/iowa''" and stateId = "''iowa''"
      and stateDisplayName = "''Iowa''" and currentPage = 1 and retries = 0]
    h c t p e
  show ?thesis by simp
qed

subsection \<open>Resuming from the checkpoint\<close>

lemma loadProgress_whole:
  assumes "progressFile w = Some (Whole d)"
  shows "completedStates (snd (loadProgress env w)) = pdCompletedStates d"
    and "stateProgress (snd (loadProgress env w)) = pdStateProgress d"
    and "currentState (snd (loadProgress env w)) = pdCurrentState d"
  using assms by (simp_all add: loadProgress_def Let_def)

lemma scrapeAllEvents_start_resumed:
  assumes "progressFile w = Some (Whole d)"
    and "rs = FromSaved \<or> (\<exists>n. 0 < n \<and> rs = FromIndex n)"
  shows "fst (scrapeAllEvents_start env sl rs w) = (case rs of FromIndex n \<Rightarrow> n | FromSaved \<Rightarrow> pdCurrentState d)"
    and "completedStates (snd (scrapeAllEvents_start env sl rs w)) = pdCompletedStates d"
    and "stateProgress (snd (scrapeAllEvents_start env sl rs w)) = pdStateProgress d"
proof -
  have p: "progressFile (w\<lparr>isRunning := True\<rparr>) = Some (Whole d)" using assms(1) by simp
  note l = loadProgress_whole [OF p, of env]
  from assms(2) l show
    "fst (scrapeAllEvents_start env sl rs w) = (case rs of FromIndex n \<Rightarrow> n | FromSaved \<Rightarrow> pdCurrentState d)"
    "completedStates (snd (scrapeAllEvents_start env sl rs w)) = pdCompletedStates d"
    "stateProgress (snd (scrapeAllEvents_start env sl rs w)) = pdStateProgress d"
    by (auto simp: scrapeAllEvents_start_def Let_def)
qed

lemma scrapeAllEvents_loop_visited:
  "\<exists>k. visitedOf (delta w (reached id (scrapeAllEvents_loop fuel env sl i w))) = [i..<k]"
proof (cases "scrapeAllEvents_loop fuel env sl i w")
  case (Inl w')
  then show ?thesis using scrapeAllEvents_loop_running by simp
next
  case (Inr w')
  then show ?thesis using scrapeAllEvents_loop_run by simp
qed

lemma aborted_grows: "aborted w w' \<Longrightarrow> grows w w'"
  using aborted_leg leg_grows by blast

text \<open>The first thing a page loop does at attempt 0 is to request its page.\<close>

lemma scrapePage_first_request:
  assumes "sid \<notin> set (completedStates w)"
    and "lastPageOf (stateProgress w) sid < p"
    and "scrapePage env fullUrl sid sdn p sc 0 w = (res, sc', w')"
  shows "\<exists>rest. delta w w' =
           Progress (PageProgress sdn p (length sc)) # ListingGet sid p (pageUrlOf fullUrl p) # rest"
proof -
  define url where "url = pageUrlOf fullUrl p"
  define w3 where "w3 = await env (emit (ListingGet sid p url)
                          (emit (Progress (PageProgress sdn p (length sc))) w))"
  have t3: "trace w3 = trace w @ [Progress (PageProgress sdn p (length sc)), ListingGet sid p url]"
    by (simp add: w3_def)
  have f3: "completedStates w3 = completedStates w" "stateProgress w3 = stateProgress w"
    by (simp_all add: w3_def)
  have k: "0 < maxRetries" by (simp add: maxRetries_def)
  have eq0: "scrapePage env fullUrl sid sdn p sc 0 w =
      (case http env url 0 of
         HttpOk b \<Rightarrow>
           (let eventLinks = filter (\<lambda>link. link \<notin> set (trackedEventLinks w3)) (links b)
            in if eventLinks = [] then (PaginationEnded, sc, w3)
               else
                 (case scrapeChunks env sdn (chunksOf (theMaxConcurrency env) eventLinks) w3 of
                    (False, w4) \<Rightarrow> (WorkerReturned, sc, w4)
                  | (True, w4) \<Rightarrow>
                      (let w5 = pageDone sid p (length eventLinks) w4;
                           w6 = saveProgress env w5;
                           w7 = sleep env 1000 w6
                       in (PageScraped, sc @ eventLinks, w7))))
       | HttpError status \<Rightarrow>
           (let w4 = emit (Progress (PageError sdn p (Suc 0) status)) w3
            in if status = Some 404 then (PaginationEnded, sc, w4)
               else if maxRetries \<le> Suc 0 then (RetriesExhausted, sc, w4)
               else scrapePage env fullUrl sid sdn p sc (Suc 0) w4))"
    by (subst scrapePage.simps) (simp only: k if_True if_False less_irrefl Let_def url_def w3_def)
  have "\<exists>d. trace w' = trace w3 @ d"
  proof (cases "http env url 0")
    case (HttpError st)
    define w4 where "w4 = emit (Progress (PageError sdn p (Suc 0) st)) w3"
    have t4: "trace w4 = trace w3 @ [Progress (PageError sdn p (Suc 0) st)]" by (simp add: w4_def)
    have f4: "sid \<notin> set (completedStates w4)" "lastPageOf (stateProgress w4) sid < p"
      using assms(1,2) by (simp_all add: w4_def f3)
    show ?thesis
    proof (cases "st = Some 404 \<or> maxRetries \<le> Suc 0")
      case True
      with eq0 HttpError assms(3) have "w' = w4" by (auto simp: Let_def w4_def split: if_splits)
      with t4 show ?thesis by simp
    next
      case False
      with eq0 HttpError assms(3) have "scrapePage env fullUrl sid sdn p sc (Suc 0) w4 = (res, sc', w')"
        by (simp add: Let_def w4_def)
      from scrapePage_step [OF f4 this] have "grows w4 w'"
        by (auto intro: step_grows aborted_grows split: if_splits)
      then have "trace w' = trace w4 @ delta w4 w'" by (rule grows_trace)
      with t4 show ?thesis by simp
    qed
  next
    case (HttpOk b)
    define eventLinks where "eventLinks = filter (\<lambda>link. link \<notin> set (trackedEventLinks w3)) (links b)"
    obtain ok w4 where c: "scrapeChunks env sdn (chunksOf (theMaxConcurrency env) eventLinks) w3 = (ok, w4)"
      by (metis surj_pair)
    from scrapeChunks_step [OF c] have "grows w3 w4"
      by (auto intro: step_grows aborted_grows split: if_splits)
    then have t4: "trace w4 = trace w3 @ delta w3 w4" by (rule grows_trace)
    from eq0 HttpOk c assms(3)
    have "w' = w3 \<or> w' = w4 \<or>
          w' = sleep env 1000 (saveProgress env (pageDone sid p (length eventLinks) w4))"
      by (auto simp: Let_def eventLinks_def split: if_splits bool.splits)
    moreover have "trace (pageDone sid p (length eventLinks) w4) = trace w4"
      by (simp add: pageDone_def)
    ultimately show ?thesis using t4 by auto
  qed
  then obtain d where "trace w' = trace w3 @ d" ..
  with t3 have "trace w' = trace w @
      (Progress (PageProgress sdn p (length sc)) # ListingGet sid p url # d)"
    by simp
  then have "delta w w' = Progress (PageProgress sdn p (length sc)) # ListingGet sid p url # d"
    by (rule delta_eq)
  then show ?thesis by (simp add: url_def)
qed

lemma scrapePages_first_request:
  assumes "sid \<notin> set (completedStates w)"
    and "lastPageOf (stateProgress w) sid < cur"
    and "isRunning w"
    and "scrapePages fuel env fullUrl sid sdn cur sc w = Inr (flag, cp, sc', w')"
  shows "\<exists>rest. delta w w' =
           Progress (PageProgress sdn cur (length sc)) # ListingGet sid cur (pageUrlOf fullUrl cur) # rest"
proof (cases fuel)
  case 0
  with assms(4) show ?thesis by simp
next
  case (Suc n)
  obtain res sc1 w1 where p: "scrapePage env fullUrl sid sdn cur sc 0 w = (res, sc1, w1)"
    by (metis prod_cases3)
  from scrapePage_first_request [OF assms(1,2) p] obtain rest where
    d1: "delta w w1 = Progress (PageProgress sdn cur (length sc)) #
           ListingGet sid cur (pageUrlOf fullUrl cur) # rest"
    by blast
  from scrapePage_step [OF assms(1,2) p]
  have r: "if res = WorkerReturned then aborted w w1 else step w w1"
    and l: "res = PageScraped \<longrightarrow> lastPageOf (stateProgress w1) sid = cur"
    by simp_all
  then have g1: "grows w w1" by (auto intro: step_grows aborted_grows split: if_splits)
  have "grows w1 w'"
  proof (cases res)
    case PageScraped
    with r l have s1: "step w w1" and l1: "lastPageOf (stateProgress w1) sid < Suc cur"
      by simp_all
    have c1: "sid \<notin> set (completedStates w1)"
      using step_completedStates [OF s1] assms(1) by simp
    from assms(3,4) Suc p PageScraped
    have "scrapePages n env fullUrl sid sdn (Suc cur) sc1 w1 = Inr (flag, cp, sc', w')"
      by simp
    from scrapePages_step [OF c1 l1 this] show ?thesis
      by (auto intro: step_grows aborted_grows split: if_splits)
  next
    case PaginationEnded
    with assms(3,4) Suc p have "w' = w1" by simp
    then show ?thesis by simp
  next
    case RetriesExhausted
    with assms(3,4) Suc p have "w' = w1" by simp
    then show ?thesis by simp
  next
    case WorkerReturned
    with assms(3,4) Suc p have "w' = w1" by simp
    then show ?thesis by simp
  qed
  from delta_trans [OF g1 this] d1 show ?thesis by simp
qed

lemma startPage_Suc: "startPage w sid = Suc (lastPageOf (stateProgress w) sid)"
  by (simp add: startPage_def lastPageOf_def split: option.splits)

lemma scrapeStateWorker_first_request:
  assumes "isRunning v"
    and "stateIdOf name \<notin> set (completedStates v)"
    and "scrapeStateWorker fuel env link name v = Inr (r, v')"
  shows "\<exists>rest. delta v v' =
           (if 0 < lastPageOf (stateProgress v) (stateIdOf name)
            then [Progress (StateResumed name (Suc (lastPageOf (stateProgress v) (stateIdOf name))))]
            else []) @
           Progress (PageProgress (orElse name (orElse (getStateFromUrl env link) ''Unknown State''))
                       (Suc (lastPageOf (stateProgress v) (stateIdOf name))) 0) #
           ListingGet (stateIdOf name) (Suc (lastPageOf (stateProgress v) (stateIdOf name)))
             (pageUrlOf (fullUrlOf (baseUrl env) link)
                (Suc (lastPageOf (stateProgress v) (stateIdOf name)))) # rest"
proof -
  define sid where "sid = stateIdOf name"
  define cur where "cur = startPage v sid"
  define w1 where "w1 = (if 1 < cur then emit (Progress (StateResumed name cur)) v else v)"
  define sdn where "sdn = orElse name (orElse (getStateFromUrl env link) ''Unknown State'')"
  have cs: "cur = Suc (lastPageOf (stateProgress v) sid)" by (simp add: cur_def startPage_Suc)
  have c1: "sid \<notin> set (completedStates w1)" using assms(2) by (simp add: w1_def sid_def)
  have l1: "lastPageOf (stateProgress w1) sid < cur" by (simp add: w1_def cs)
  have r1: "isRunning w1" using assms(1) by (simp add: w1_def)
  have t1: "trace w1 = trace v @ (if 0 < lastPageOf (stateProgress v) sid
              then [Progress (StateResumed name cur)] else [])"
    by (simp add: w1_def cs)
  have g01: "grows v w1" by (simp add: w1_def)
  have eq: "scrapeStateWorker fuel env link name v =
      (case scrapePages fuel env (fullUrlOf (baseUrl env) link) sid sdn cur [] w1 of
         Inl w2 \<Rightarrow> Inl w2
       | Inr (False, currentPage', scraped, w2) \<Rightarrow> Inr (scraped, w2)
       | Inr (True, currentPage', scraped, w2) \<Rightarrow>
           Inr (scraped, markCompleted env sid sdn currentPage' scraped w2))"
    using assms(1,2)
    by (simp only: scrapeStateWorker_def if_False if_True Let_def
          sid_def cur_def w1_def sdn_def simp_thms)
  from assms(3) eq obtain flag cp sc w2 where
    p: "scrapePages fuel env (fullUrlOf (baseUrl env) link) sid sdn cur [] w1 = Inr (flag, cp, sc, w2)"
    and w': "v' = (if flag then markCompleted env sid sdn cp sc w2 else w2)"
    by (auto split: sum.splits bool.splits)
  from scrapePages_first_request [OF c1 l1 r1 p] obtain rest where
    d12: "delta w1 w2 = Progress (PageProgress sdn cur 0) #
            ListingGet sid cur (pageUrlOf (fullUrlOf (baseUrl env) link) cur) # rest"
    by auto
  from scrapePages_step [OF c1 l1 p] have g12: "grows w1 w2"
    by (auto intro: step_grows aborted_grows split: if_splits)
  have g2: "grows w2 v'" using w' by (simp add: grows_markCompleted)
  have "delta v v' = delta v w1 @ delta w1 w2 @ delta w2 v'"
    using delta_trans [OF grows_trans [OF g01 g12] g2] delta_trans [OF g01 g12] by simp
  moreover have "delta v w1 = (if 0 < lastPageOf (stateProgress v) sid
              then [Progress (StateResumed name cur)] else [])"
    using t1 by (rule delta_eq)
  ultimately show ?thesis
    using d12 by (auto simp: cs sid_def sdn_def)
qed

text \<open>
  What the code does when it loads the checkpoint (\<open>resumeFromState\<close> is \<open>true\<close>
  or positive). The run turns to the states of the list in order from the resumed index;
  every listing request, as far as the run has come, is for a state that is not in the
  completed set of the checkpoint and for a page after the last page the checkpoint
  records for that state.
\<close>

lemma loaded_checkpoint_is_honoured:
  assumes "progressFile w = Some (Whole d)"
    and "resumeFromState = FromSaved \<or> (\<exists>n. 0 < n \<and> resumeFromState = FromIndex n)"
  shows "(\<exists>k. visitedOf (delta w (reached id (scrapeAllEvents fuel env stateLinks resumeFromState w))) =
            [(case resumeFromState of FromIndex n \<Rightarrow> n | FromSaved \<Rightarrow> pdCurrentState d)..<k]) \<and>
         (\<forall>sid p u. ListingGet sid p u
              \<in> set (delta w (reached id (scrapeAllEvents fuel env stateLinks resumeFromState w))) \<longrightarrow>
            sid \<notin> set (pdCompletedStates d) \<and> lastPageOf (pdStateProgress d) sid < p)"
proof -
  let ?r = "fst (scrapeAllEvents_start env stateLinks resumeFromState w)"
  let ?w4 = "snd (scrapeAllEvents_start env stateLinks resumeFromState w)"
  let ?w5 = "reached id (scrapeAllEvents_loop fuel env stateLinks ?r ?w4)"
  from scrapeAllEvents_reached [of fuel env stateLinks resumeFromState w] obtain a b tl where
    tl: "tl = [] \<or> tl = [SaveProgress]"
    and d: "delta w (reached id (scrapeAllEvents fuel env stateLinks resumeFromState w)) =
              Progress (ScraperSummary a b) # delta ?w4 ?w5 @ tl"
    by auto
  note rs = scrapeAllEvents_start_resumed [OF assms(1,2), of env stateLinks]
  have g: "grows ?w4 ?w5" by (rule scrapeAllEvents_loop_grows)
  from scrapeAllEvents_loop_visited [of ?w4 fuel env stateLinks ?r] obtain k where
    vis: "visitedOf (delta ?w4 ?w5) = [?r..<k]" by blast
  have A: "\<exists>k. visitedOf (delta w (reached id (scrapeAllEvents fuel env stateLinks resumeFromState w))) =
            [(case resumeFromState of FromIndex n \<Rightarrow> n | FromSaved \<Rightarrow> pdCurrentState d)..<k]"
    using vis rs(1) tl by (auto simp: d)
  have B: "\<forall>sid p u. ListingGet sid p u
              \<in> set (delta w (reached id (scrapeAllEvents fuel env stateLinks resumeFromState w))) \<longrightarrow>
            sid \<notin> set (pdCompletedStates d) \<and> lastPageOf (pdStateProgress d) sid < p"
  proof (intro allI impI)
    fix sid p u
    assume "ListingGet sid p u
              \<in> set (delta w (reached id (scrapeAllEvents fuel env stateLinks resumeFromState w)))"
    then have "ListingGet sid p u \<in> set (delta ?w4 ?w5)" using tl by (auto simp: d)
    with g have "sid \<notin> set (completedStates ?w4) \<and> lastPageOf (stateProgress ?w4) sid < p"
      unfolding grows_def by blast
    then show "sid \<notin> set (pdCompletedStates d) \<and> lastPageOf (pdStateProgress d) sid < p"
      using rs(2,3) by simp
  qed
  from A B show ?thesis by blast
qed

text \<open>
  Claim C7, evaluated on the code. Iowa, the first state, has three pages. The first
  run is stopped with \<open>stop()\<close> while page 3 of Iowa is being requested: the
  progress file records index 0, pages 1 and 2 of Iowa as processed, two tracked links
  and no completed state. "Resume Scraping" then calls
  \<open>scrapeAllEvents(stateLinks, 0)\<close>, and for index 0 the checkpoint is not loaded:
  Iowa is requested from page 1 again, that page has no link that is not tracked, so Iowa
  is marked completed; page 3 is never requested and \<open>/a3\<close> never reaches the CSV.
  Started with \<open>resumeFromState = true\<close> on the same files, the code loads the
  checkpoint and requests pages 3 and 4 of Iowa. When the first run is stopped through
  \<open>global.isScraperRunning\<close> instead, it finishes Iowa and halts before Ohio: the
  file records index 0 and Iowa as completed. Resumed with index 0, the run requests
  page 1 of the completed state Iowa; with \<open>true\<close> it skips Iowa.
\<close>

theorem resume_at_index_zero_ignores_checkpoint:
  "(case scrapeAllEvents 5 stopInThirdPage twoStates (FromIndex 0) freshWorld of
      Inl w \<Rightarrow> False
    | Inr w \<Rightarrow>
        (case savedData w of
           None \<Rightarrow> False
         | Some d \<Rightarrow>
             pdCurrentState d = 0 \<and> pdCompletedStates d = [] \<and>
             map_option lastPage (pdStateProgress d ''iowa'') = Some 2 \<and>
             pdTrackedEventLinks d = [''/a1'', ''/a2''] \<and>
             (case scrapeAllEvents 5 threePageSite twoStates (FromIndex (pdCurrentState d))
                     (resumedScraper d w) of
                Inl v \<Rightarrow> False
              | Inr v \<Rightarrow>
                  listingRequests (trace v) = [(''iowa'', 1), (''ohio'', 1)] \<and>
                  map originalLink (csv v) = [''/a1'', ''/a2''] \<and>
                  completedStates v = [''iowa'', ''ohio'']) \<and>
             (case scrapeAllEvents 5 threePageSite twoStates FromSaved (resumedScraper d w) of
                Inl v \<Rightarrow> False
              | Inr v \<Rightarrow>
                  listingRequests (trace v) = [(''iowa'', 3), (''iowa'', 4), (''ohio'', 1)] \<and>
                  map originalLink (csv v) = [''/a1'', ''/a2'', ''/a3'']))) \<and>
   (case scrapeAllEvents 5 clearInThirdPage twoStates (FromIndex 0) freshWorld of
      Inl w \<Rightarrow> False
    | Inr w \<Rightarrow>
        (case savedData w of
           None \<Rightarrow> False
         | Some d \<Rightarrow>
             pdCurrentState d = 0 \<and> pdCompletedStates d = [''iowa''] \<and>
             completedStates (resumedScraper d w) = [] \<and>
             (case scrapeAllEvents 5 threePageSite twoStates (FromIndex (pdCurrentState d))
                     (resumedScraper d w) of
                Inl v \<Rightarrow> False
              | Inr v \<Rightarrow> listingRequests (trace v) = [(''iowa'', 1), (''ohio'', 1)]) \<and>
             (case scrapeAllEvents 5 threePageSite twoStates FromSaved (resumedScraper d w) of
                Inl v \<Rightarrow> False
              | Inr v \<Rightarrow> listingRequests (trace v) = [(''ohio'', 1)])))"
  by code_simp

subsection \<open>The stop request\<close>

lemma quietAfterStop_then_save:
  "quietAfterStop d \<Longrightarrow> quietAfterStop (d @ [SaveProgress])"
  by (rule quietAfterStop_append_halting) simp_all

lemma loadProgress_restores:
  assumes "progressFile v = Some (Whole d)"
  shows "fst (loadProgress env v) \<and>
         trackedEventLinks (snd (loadProgress env v)) = pdTrackedEventLinks d \<and>
         completedStates (snd (loadProgress env v)) = pdCompletedStates d \<and>
         stateProgress (snd (loadProgress env v)) = pdStateProgress d \<and>
         currentState (snd (loadProgress env v)) = pdCurrentState d \<and>
         totalStates (snd (loadProgress env v)) = pdTotalStates d \<and>
         processedEvents (snd (loadProgress env v)) = pdProcessedEvents d \<and>
         totalEventsFound (snd (loadProgress env v)) = pdTotalEventsFound d"
  using assms by (simp add: loadProgress_def Let_def)

text \<open>
  Claim C9. Whenever a call of \<open>scrapeAllEvents\<close> has observed the stop request at a
  poll point (before a state, before a page or before a chunk), the call has returned,
  and returned normally: nothing followed the observation but an orderly halt (no
  request, no sleep, no CSV write, no further state, page or chunk, only the closing
  messages of \<open>scrapeAllEvents\<close> and saves of the progress), and the last thing it did
  was to save progress. When that write resolves, the progress file is complete and
  holds, field by field, what the scraper has at the halt: the tracked links, the
  completed states, the page reached in every state, the index of the current state and
  the counters; \<open>loadProgress\<close> restores exactly these from it. At each poll point an
  observed stop request makes the function return at once: the loop of
  \<open>scrapeAllEvents\<close> saves and returns, the page loop, the chunk loop and
  \<open>scrapeStateWorker\<close> return what they have.
\<close>

theorem stop_request_halts_run:
  assumes "\<exists>e \<in> set (delta w (reached id (scrapeAllEvents fuel env stateLinks resumeFromState w))).
             isAbort e"
    and "\<not> isRunning v"
    and "\<not> isRunning u \<or> \<not> globalRunning u"
    and "i < length stateLinks"
  shows "(\<exists>w'. scrapeAllEvents fuel env stateLinks resumeFromState w = Inr w' \<and>
            quietAfterStop (delta w w') \<and>
            last (trace w') = SaveProgress \<and>
            (diskOk env (awaits w' - 1) \<longrightarrow>
               (\<exists>d. progressFile w' = Some (Whole d) \<and>
                  pdTrackedEventLinks d = trackedEventLinks w' \<and>
                  pdCompletedStates d = completedStates w' \<and>
                  pdStateProgress d = stateProgress w' \<and>
                  pdCurrentState d = currentState w' \<and>
                  pdTotalStates d = totalStates w' \<and>
                  pdProcessedEvents d = processedEvents w' \<and>
                  pdTotalEventsFound d = totalEventsFound w' \<and>
                  fst (loadProgress env' (x\<lparr>progressFile := progressFile w'\<rparr>)) \<and>
                  trackedEventLinks (snd (loadProgress env' (x\<lparr>progressFile := progressFile w'\<rparr>)))
                    = trackedEventLinks w' \<and>
                  completedStates (snd (loadProgress env' (x\<lparr>progressFile := progressFile w'\<rparr>)))
                    = completedStates w' \<and>
                  stateProgress (snd (loadProgress env' (x\<lparr>progressFile := progressFile w'\<rparr>)))
                    = stateProgress w' \<and>
                  currentState (snd (loadProgress env' (x\<lparr>progressFile := progressFile w'\<rparr>)))
                    = currentState w'))) \<and>
         scrapeAllEvents_loop fuel' env stateLinks i u
           = Inr (saveProgress env (emit (Progress (Stopped i)) u)) \<and>
         scrapeStateWorker fuel' env stateLink stateName v
           = Inr ([], emit (Progress (StateAborted stateName)) v) \<and>
         scrapePages (Suc fuel') env fullUrl stateId stateDisplayName currentPage scraped v
           = Inr (False, currentPage, scraped, emit (Progress (StateAborted stateDisplayName)) v) \<and>
         scrapeChunks env stateDisplayName (chunk # chunks) v
           = (False, emit (Progress (EventsAborted stateDisplayName)) v)"
proof -
  let ?r = "fst (scrapeAllEvents_start env stateLinks resumeFromState w)"
  let ?w4 = "snd (scrapeAllEvents_start env stateLinks resumeFromState w)"
  let ?run = "scrapeAllEvents fuel env stateLinks resumeFromState w"
  from scrapeAllEvents_reached [of fuel env stateLinks resumeFromState w] obtain a b tl where
    tl: "tl = [] \<or> tl = [SaveProgress]"
    and d: "delta w (reached id ?run) =
              Progress (ScraperSummary a b) #
              delta ?w4 (reached id (scrapeAllEvents_loop fuel env stateLinks ?r ?w4)) @ tl"
    by auto
  have st: "scrapeAllEvents_start env stateLinks resumeFromState w = (?r, ?w4)" by simp
  obtain w5 where lp: "scrapeAllEvents_loop fuel env stateLinks ?r ?w4 = Inr w5"
  proof (cases "scrapeAllEvents_loop fuel env stateLinks ?r ?w4")
    case (Inl w5)
    from scrapeAllEvents_loop_running [OF Inl]
    have "list_all (\<lambda>e. \<not> isAbort e) (delta ?w4 w5)" by simp
    with tl have "list_all (\<lambda>e. \<not> isAbort e) (delta w (reached id ?run))"
      by (auto simp: d Inl)
    with assms(1) have False by (auto simp: list_all_iff)
    then show ?thesis ..
  next
    case (Inr w5)
    with that show ?thesis by blast
  qed
  define w' where "w' = saveProgress env w5"
  have run: "?run = Inr w'"
    using lp by (simp add: scrapeAllEvents_def w'_def case_prod_beta)
  have tl': "tl = [SaveProgress]"
  proof -
    from scrapeAllEvents_loop_run [OF lp] have "trace w5 = trace ?w4 @ delta ?w4 w5"
      by (simp add: grows_def)
    moreover from scrapeAllEvents_start_trace [of env stateLinks resumeFromState w] obtain a' b' where
      "trace ?w4 = trace w @ [Progress (ScraperSummary a' b')]" by auto
    ultimately have "trace w' = trace w @ (Progress (ScraperSummary a' b') # delta ?w4 w5 @ [SaveProgress])"
      by (simp add: w'_def)
    then have "delta w w' = Progress (ScraperSummary a' b') # delta ?w4 w5 @ [SaveProgress]"
      by (rule delta_eq)
    with d run lp show ?thesis by simp
  qed
  have dd: "delta w w' = Progress (ScraperSummary a b) # delta ?w4 w5 @ [SaveProgress]"
    using d run lp tl' by simp
  from scrapeAllEvents_loop_run [OF lp] have "quietAfterStop (delta ?w4 w5)" by simp
  then have A: "quietAfterStop (delta w w')"
    by (simp add: dd quietAfterStop_then_save)
  have B: "last (trace w') = SaveProgress" by (simp add: w'_def)
  have C: "diskOk env (awaits w' - 1) \<longrightarrow>
               (\<exists>d. progressFile w' = Some (Whole d) \<and>
                  pdTrackedEventLinks d = trackedEventLinks w' \<and>
                  pdCompletedStates d = completedStates w' \<and>
                  pdStateProgress d = stateProgress w' \<and>
                  pdCurrentState d = currentState w' \<and>
                  pdTotalStates d = totalStates w' \<and>
                  pdProcessedEvents d = processedEvents w' \<and>
                  pdTotalEventsFound d = totalEventsFound w' \<and>
                  fst (loadProgress env' (x\<lparr>progressFile := progressFile w'\<rparr>)) \<and>
                  trackedEventLinks (snd (loadProgress env' (x\<lparr>progressFile := progressFile w'\<rparr>)))
                    = trackedEventLinks w' \<and>
                  completedStates (snd (loadProgress env' (x\<lparr>progressFile := progressFile w'\<rparr>)))
                    = completedStates w' \<and>
                  stateProgress (snd (loadProgress env' (x\<lparr>progressFile := progressFile w'\<rparr>)))
                    = stateProgress w' \<and>
                  currentState (snd (loadProgress env' (x\<lparr>progressFile := progressFile w'\<rparr>)))
                    = currentState w')"
  proof
    assume ok: "diskOk env (awaits w' - 1)"
    then have f: "progressFile w' = Some (Whole (snapshot w5))" by (simp add: w'_def)
    then have "progressFile (x\<lparr>progressFile := progressFile w'\<rparr>) = Some (Whole (snapshot w5))"
      by simp
    from loadProgress_restores [OF this, of env'] f
    show "\<exists>d. progressFile w' = Some (Whole d) \<and>
                  pdTrackedEventLinks d = trackedEventLinks w' \<and>
                  pdCompletedStates d = completedStates w' \<and>
                  pdStateProgress d = stateProgress w' \<and>
                  pdCurrentState d = currentState w' \<and>
                  pdTotalStates d = totalStates w' \<and>
                  pdProcessedEvents d = processedEvents w' \<and>
                  pdTotalEventsFound d = totalEventsFound w' \<and>
                  fst (loadProgress env' (x\<lparr>progressFile := progressFile w'\<rparr>)) \<and>
                  trackedEventLinks (snd (loadProgress env' (x\<lparr>progressFile := progressFile w'\<rparr>)))
                    = trackedEventLinks w' \<and>
                  completedStates (snd (loadProgress env' (x\<lparr>progressFile := progressFile w'\<rparr>)))
                    = completedStates w' \<and>
                  stateProgress (snd (loadProgress env' (x\<lparr>progressFile := progressFile w'\<rparr>)))
                    = stateProgress w' \<and>
                  currentState (snd (loadProgress env' (x\<lparr>progressFile := progressFile w'\<rparr>)))
                    = currentState w'"
      by (intro exI [of _ "snapshot w5"]) (simp add: snapshot_def w'_def)
  qed
  have D: "scrapeAllEvents_loop fuel' env stateLinks i u
           = Inr (saveProgress env (emit (Progress (Stopped i)) u))"
    using assms(3,4) by (subst scrapeAllEvents_loop.simps) auto
  have E: "scrapeStateWorker fuel' env stateLink stateName v
           = Inr ([], emit (Progress (StateAborted stateName)) v)"
    using assms(2) by (simp add: scrapeStateWorker_def)
  have F: "scrapePages (Suc fuel') env fullUrl stateId stateDisplayName currentPage scraped v
           = Inr (False, currentPage, scraped, emit (Progress (StateAborted stateDisplayName)) v)"
    using assms(2) by simp
  have G: "scrapeChunks env stateDisplayName (chunk # chunks) v
           = (False, emit (Progress (EventsAborted stateDisplayName)) v)"
    using assms(2) by simp
  from run A B C D E F G show ?thesis by blast
qed

theorem stop_request_halts_run_witness:
  "Progress (EventsAborted ''Iowa'') \<in> set (delta freshWorld
     (reached id (scrapeAllEvents 5 stopInThirdPage twoStates (FromIndex 0) freshWorld))) \<and>
   (case scrapeAllEvents 5 stopInThirdPage twoStates (FromIndex 0) freshWorld of
      Inl w \<Rightarrow> False
    | Inr w \<Rightarrow>
        drop 20 (trace w) =
          [Progress (PageProgress ''Iowa'' 3 2),
           ListingGet ''iowa'' 3 ''https://carcruisefinder.com/iowa/page/3/'',
           Progress (EventsAborted ''Iowa''), Progress (StateFinished ''Iowa'' 2 0),
           SaveProgress, Progress (Stopped 1), SaveProgress, SaveProgress] \<and>
        quietAfterStop (delta freshWorld w) \<and>
        trackedEventLinks w = [''/a1'', ''/a2''] \<and> completedStates w = [] \<and>
        map_option pdTrackedEventLinks (savedData w) = Some [''/a1'', ''/a2''] \<and>
        map_option pdCompletedStates (savedData w) = Some [] \<and>
        map_option (\<lambda>d. map_option lastPage (pdStateProgress d ''iowa'')) (savedData w)
          = Some (Some 2)) \<and>
   \<not> isRunning (freshWorld\<lparr>isRunning := False\<rparr>) \<and>
   scrapeAllEvents_loop 0 stopInThirdPage twoStates 1 (freshWorld\<lparr>isRunning := False\<rparr>)
     = Inr (saveProgress stopInThirdPage (emit (Progress (Stopped 1)) (freshWorld\<lparr>isRunning := False\<rparr>)))"
proof -
  have h1: "\<exists>e \<in> set (delta freshWorld
       (reached id (scrapeAllEvents 5 stopInThirdPage twoStates (FromIndex 0) freshWorld))). isAbort e"
    by code_simp
  have h2: "\<not> isRunning (freshWorld\<lparr>isRunning := False\<rparr>)" by simp
  have h3: "\<not> isRunning (freshWorld\<lparr>isRunning := False\<rparr>) \<or>
            \<not> globalRunning (freshWorld\<lparr>isRunning := False\<rparr>)" by simp
  have h4: "1 < length twoStates" by (simp add: twoStates_def)
  have c0: "Progress (EventsAborted ''Iowa'') \<in> set (delta freshWorld
     (reached id (scrapeAllEvents 5 stopInThirdPage twoStates (FromIndex 0) freshWorld)))"
    by code_simp
  have c1: "(case scrapeAllEvents 5 stopInThirdPage twoStates (FromIndex 0) freshWorld of
      Inl w \<Rightarrow> False
    | Inr w \<Rightarrow>
        drop 20 (trace w) =
          [Progress (PageProgress ''Iowa'' 3 2),
           ListingGet ''iowa'' 3 ''https://carcruisefinder.com/iowa/page/3/'',
           Progress (EventsAborted ''Iowa''), Progress (StateFinished ''Iowa'' 2 0),
           SaveProgress, Progress (Stopped 1), SaveProgress, SaveProgress] \<and>
        trackedEventLinks w = [''/a1'', ''/a2''] \<and> completedStates w = [] \<and>
        map_option pdTrackedEventLinks (savedData w) = Some [''/a1'', ''/a2''] \<and>
        map_option pdCompletedStates (savedData w) = Some [] \<and>
        map_option (\<lambda>d. map_option lastPage (pdStateProgress d ''iowa'')) (savedData w)
          = Some (Some 2))"
    by code_simp
  from stop_request_halts_run [OF h1 h2 h3 h4, where fuel' = 0] obtain w' where
    run: "scrapeAllEvents 5 stopInThirdPage twoStates (FromIndex 0) freshWorld = Inr w'"
    and q: "quietAfterStop (delta freshWorld w')"
    and l: "scrapeAllEvents_loop 0 stopInThirdPage twoStates 1 (freshWorld\<lparr>isRunning := False\<rparr>)
     = Inr (saveProgress stopInThirdPage (emit (Progress (Stopped 1)) (freshWorld\<lparr>isRunning := False\<rparr>)))"
    by blast
  from c1 q l h2 c0 show ?thesis by (simp add: run)
qed

end
